theory Spec2Isabelle
  imports Complex_Main "HOL-Library.While_Combinator" "HOL-Library.Word"
begin

section \<open>The source and its numbers\<close>

text \<open>
  The embedding follows the second \<open>ShapeDetector\<close> class of \<open>src/src/main.ts\<close> (the one
  with \<open>binaryMatrix\<close>, \<open>visited\<close>, \<open>floodFill\<close> and \<open>analyzeShape\<close>).

  JavaScript numbers that hold pixel coordinates, sizes, counts and coordinate sums are
  integers in the source and are \<open>int\<close> here (\<open>nat\<close> where the source can never make them
  negative); they are exact as long as they stay below \<open>2^53\<close>. The numbers that hold ratios,
  distances and confidences are IEEE-754 doubles, see the next section. The bytes of the
  \<open>Uint8ClampedArray\<close> are \<open>8 word\<close>.
\<close>

section \<open>Double-precision numbers\<close>

text \<open>
  A double is modelled as the real number it denotes. Every arithmetic operation of the
  source on doubles returns the exact result rounded to the nearest double, ties to the even
  significand (53 significant bits), as IEEE-754 and ECMAScript prescribe for \<open>+\<close>, \<open>-\<close>, \<open>*\<close>
  and \<open>/\<close>. The exponent range is left unbounded: there is no overflow to \<open>Infinity\<close>, no
  subnormal number and no \<open>NaN\<close>; none of them arises from the quantities of an image that
  fits in memory. A decimal literal of the source denotes the double nearest to it,
  \<open>Math.PI\<close> the double nearest to \<open>\<pi>\<close>, and \<open>Math.sqrt\<close> is correctly rounded, as the engines
  implement it. \<open>Math.log10\<close> is implementation-approximated in ECMAScript: it is a parameter
  \<open>lg\<close> of \<open>analyzeShape\<close> and of everything that calls it.
\<close>

type_synonym double = real

text \<open>Rounding a real to the nearest integer, ties to even.\<close>

definition rne :: "real \<Rightarrow> int" where
  "rne r =
     (let f = \<lfloor>r\<rfloor>; t = r - of_int f
      in if t < 1 / 2 then f else if 1 / 2 < t then f + 1 else if even f then f else f + 1)"

text \<open>
  The exponent \<open>e\<close> with \<open>2^e \<le> |x| < 2^(e+1)\<close>, the spacing of the doubles there, and
  rounding to the nearest double.
\<close>

definition binade :: "real \<Rightarrow> int" where
  "binade x = \<lfloor>log 2 \<bar>x\<bar>\<rfloor>"

definition ulp :: "real \<Rightarrow> real" where
  "ulp x = 2 powr (of_int (binade x) - 52)"

definition rnd :: "real \<Rightarrow> double" where
  "rnd x = (if x = 0 then 0 else of_int (rne (x / ulp x)) * ulp x)"

definition fadd :: "double \<Rightarrow> double \<Rightarrow> double" where
  "fadd a b = rnd (a + b)"

definition fsub :: "double \<Rightarrow> double \<Rightarrow> double" where
  "fsub a b = rnd (a - b)"

definition fmul :: "double \<Rightarrow> double \<Rightarrow> double" where
  "fmul a b = rnd (a * b)"

definition fdiv :: "double \<Rightarrow> double \<Rightarrow> double" where
  "fdiv a b = rnd (a / b)"

definition fsqrt :: "double \<Rightarrow> double" where
  "fsqrt a = rnd (sqrt a)"

definition lit :: "real \<Rightarrow> double" where
  "lit c = rnd c"

definition Math_PI :: double where
  "Math_PI = rnd pi"

section \<open>Data model\<close>

datatype ShapeType = Circle | Square | Rectangle | Triangle | Pentagon

record BoundingBox =
  box_x :: int
  box_y :: int
  box_width :: int
  box_height :: int

record DetectedShape =
  shape_type :: ShapeType
  confidence :: double
  boundingBox :: BoundingBox
  center :: "double \<times> double"
  area :: nat

text \<open>\<open>processingTimeMs\<close> is a wall-clock difference and is left out of the model.\<close>

record ImageStats =
  stats_width :: nat
  stats_height :: nat

record DetectionResult =
  shapes :: "DetectedShape list"
  imageStats :: ImageStats

record ImageData =
  img_width :: nat
  img_height :: nat
  img_data :: "8 word list"

text \<open>The mutable fields of the detector object; \<open>data\<close> is \<open>Uint8ClampedArray | null\<close>.\<close>

record ShapeDetector =
  width :: nat
  height :: nat
  data :: "8 word list option"
  binaryMatrix :: "bool list list"
  visited :: "bool list list"

text \<open>A pixel \<open>{x, y}\<close> is the pair \<open>(x, y)\<close>.\<close>

type_synonym pixel = "int \<times> int"

section \<open>Binarizer: \<open>initializeBinaryMatrix\<close>, \<open>initializeVisited\<close>\<close>

text \<open>
  \<open>data[i] < 240\<close>: a read past the end of a typed array gives \<open>undefined\<close>, and
  \<open>undefined < 240\<close> is false.
\<close>

definition below240 :: "8 word list \<Rightarrow> nat \<Rightarrow> bool" where
  "below240 dat i \<longleftrightarrow> i < length dat \<and> dat ! i < 240"

definition isForeground :: "8 word list \<Rightarrow> nat \<Rightarrow> bool" where
  "isForeground dat i \<longleftrightarrow> below240 dat i \<or> below240 dat (i + 1) \<or> below240 dat (i + 2)"

definition initializeBinaryMatrix :: "ShapeDetector \<Rightarrow> ShapeDetector" where
  "initializeBinaryMatrix d =
     (case data d of
        None \<Rightarrow> d
      | Some dat \<Rightarrow>
          d\<lparr>binaryMatrix :=
              map (\<lambda>y. map (\<lambda>x. isForeground dat ((y * width d + x) * 4)) [0..<width d])
                [0..<height d]\<rparr>)"

definition initializeVisited :: "ShapeDetector \<Rightarrow> ShapeDetector" where
  "initializeVisited d = d\<lparr>visited := map (\<lambda>y. replicate (width d) False) [0..<height d]\<rparr>"

section \<open>Region extractor: \<open>floodFill\<close>\<close>

text \<open>\<open>m[y][x]\<close> and \<open>m[y][x] = true\<close> on a grid of rows, at integer coordinates.\<close>

definition cell :: "bool list list \<Rightarrow> int \<Rightarrow> int \<Rightarrow> bool" where
  "cell m px py = m ! nat py ! nat px"

definition mark :: "bool list list \<Rightarrow> int \<Rightarrow> int \<Rightarrow> bool list list" where
  "mark m px py = m[nat py := (m ! nat py)[nat px := True]]"

definition dx :: "int list" where
  "dx = [-1, 0, 1, -1, 1, -1, 0, 1]"

definition dy :: "int list" where
  "dy = [-1, -1, -1, 0, 0, 1, 1, 1]"

record flood_state =
  queue :: "pixel list"
  pixels :: "pixel list"
  det :: ShapeDetector

text \<open>The body of \<open>for (let i = 0; i < 8; i++)\<close> for the dequeued pixel \<open>(px, py)\<close>.\<close>

definition visit_neighbour :: "int \<Rightarrow> int \<Rightarrow> nat \<Rightarrow> flood_state \<Rightarrow> flood_state" where
  "visit_neighbour px py i s =
     (let nx = px + dx ! i;
          ny = py + dy ! i;
          d = det s
      in if nx \<ge> 0 \<and> nx < int (width d) \<and> ny \<ge> 0 \<and> ny < int (height d) \<and>
            cell (binaryMatrix d) nx ny \<and> \<not> cell (visited d) nx ny
         then s\<lparr>det := d\<lparr>visited := mark (visited d) nx ny\<rparr>, queue := queue s @ [(nx, ny)]\<rparr>
         else s)"

text \<open>
  The body of \<open>while (queue.length > 0)\<close>: \<open>queue.shift()\<close>, \<open>pixels.push\<close>, then the eight
  neighbours. The loop guard excludes the empty queue.
\<close>

definition flood_step :: "flood_state \<Rightarrow> flood_state" where
  "flood_step s =
     (case queue s of
        [] \<Rightarrow> s
      | p # rest \<Rightarrow>
          fold (visit_neighbour (fst p) (snd p)) [0..<8]
            (s\<lparr>queue := rest, pixels := pixels s @ [p]\<rparr>))"

definition flood_init :: "int \<Rightarrow> int \<Rightarrow> ShapeDetector \<Rightarrow> flood_state" where
  "flood_init startX startY d =
     \<lparr>queue = [(startX, startY)], pixels = [],
      det = d\<lparr>visited := mark (visited d) startX startY\<rparr>\<rparr>"

text \<open>
  \<open>floodFill\<close> returns the pixel list and leaves the detector with the updated \<open>visited\<close>
  grid; \<open>None\<close> is a loop that never ends.
\<close>

definition floodFill :: "int \<Rightarrow> int \<Rightarrow> ShapeDetector \<Rightarrow> (pixel list \<times> ShapeDetector) option" where
  "floodFill startX startY d =
     map_option (\<lambda>s. (pixels s, det s))
       (while_option (\<lambda>s. queue s \<noteq> []) flood_step (flood_init startX startY d))"

section \<open>Feature calculator and classifier: \<open>analyzeShape\<close>\<close>

text \<open>The first loop of \<open>analyzeShape\<close>: bounding box and coordinate sums.\<close>

definition boundsLoop :: "ShapeDetector \<Rightarrow> pixel list \<Rightarrow> int \<times> int \<times> int \<times> int \<times> int \<times> int" where
  "boundsLoop d ps =
     fold (\<lambda>(px, py) (minX, minY, maxX, maxY, sumX, sumY).
             (min minX px, min minY py, max maxX px, max maxY py, sumX + px, sumY + py))
       ps (int (width d), int (height d), 0, 0, 0, 0)"

text \<open>The second loop: the perimeter estimate. The differences of the coordinates are exact.\<close>

definition perimeterLoop :: "pixel list \<Rightarrow> double" where
  "perimeterLoop ps =
     fold (\<lambda>i perimeter.
             let next = (i + 1) mod length ps;
                 ddx = real_of_int (fst (ps ! next) - fst (ps ! i));
                 ddy = real_of_int (snd (ps ! next) - snd (ps ! i))
             in fadd perimeter (fsqrt (fadd (fmul ddx ddx) (fmul ddy ddy))))
       [0..<length ps] 0"

text \<open>\<open>perimeter > 0 ? (4 * Math.PI * area) / (perimeter * perimeter) : 0\<close>\<close>

definition circularityOf :: "nat \<Rightarrow> double \<Rightarrow> double" where
  "circularityOf a perimeter =
     (if perimeter > 0
      then fdiv (fmul (fmul 4 Math_PI) (real a)) (fmul perimeter perimeter)
      else 0)"

text \<open>The if/else chain; the result is the type and the confidence before the penalty.\<close>

definition classify :: "double \<Rightarrow> double \<Rightarrow> double \<Rightarrow> ShapeType \<times> double" where
  "classify circularity aspectRatio extent =
     (if circularity > lit 0.85 then (Circle, min (lit 0.99) circularity)
      else if \<bar>fsub aspectRatio 1\<bar> < lit 0.2 \<and> extent > lit 0.7
        then (Square, fmul (lit 0.85) extent)
      else if extent > lit 0.6 then (Rectangle, fmul (lit 0.8) extent)
      else if extent < lit 0.6 then (Triangle, fmul (lit 0.7) (fsub 1 extent))
      else (Pentagon, lit 0.6))"

text \<open>\<open>Math.min(1, Math.log10(area / 100) / 2 + 0.8)\<close>, with \<open>lg\<close> for \<open>Math.log10\<close>.\<close>

definition sizePenalty :: "(double \<Rightarrow> double) \<Rightarrow> nat \<Rightarrow> double" where
  "sizePenalty lg a = min 1 (fadd (fdiv (lg (fdiv (real a) 100)) 2) (lit 0.8))"

text \<open>
  \<open>analyzeShape\<close>; \<open>None\<close> is the source's \<open>null\<close>. For a non-empty list \<open>maxX \<ge> minX\<close> and
  \<open>maxY \<ge> minY\<close>, so \<open>width * height \<ge> 1\<close> and no division is by zero.
\<close>

definition analyzeShape :: "(double \<Rightarrow> double) \<Rightarrow> ShapeDetector \<Rightarrow> pixel list \<Rightarrow> DetectedShape option" where
  "analyzeShape lg d ps =
     (if length ps < 10 then None
      else
        (case boundsLoop d ps of
           (minX, minY, maxX, maxY, sumX, sumY) \<Rightarrow>
             let w = maxX - minX + 1;
                 h = maxY - minY + 1;
                 centerX = fdiv (real_of_int sumX) (real (length ps));
                 centerY = fdiv (real_of_int sumY) (real (length ps));
                 a = length ps;
                 aspectRatio = fdiv (real_of_int w) (real_of_int (max 1 h));
                 extent = fdiv (real a) (real_of_int (w * h));
                 perimeter = perimeterLoop ps;
                 circularity = circularityOf a perimeter;
                 tc = classify circularity aspectRatio extent;
                 conf1 = fmul (snd tc) (sizePenalty lg a);
                 conf2 = max (lit 0.1) (min (lit 0.99) conf1)
             in if conf2 < lit 0.6 then None
                else Some \<lparr>shape_type = fst tc, confidence = conf2,
                           boundingBox = \<lparr>box_x = minX, box_y = minY, box_width = w, box_height = h\<rparr>,
                           center = (centerX, centerY), area = a\<rparr>))"

section \<open>Pipeline: \<open>detectShapes\<close>\<close>

definition minShapeSize :: nat where
  "minShapeSize = 20"

text \<open>
  The state of the raster scan: the detector, the local \<open>shapes\<close> list, and two history
  lists that the source does not keep: \<open>regions\<close> records every list returned by
  \<open>floodFill\<close>, \<open>analysed\<close> every list passed to \<open>analyzeShape\<close>, both in call order.
\<close>

record scan_state =
  sdet :: ShapeDetector
  acc_shapes :: "DetectedShape list"
  regions :: "pixel list list"
  analysed :: "pixel list list"

text \<open>A \<open>for\<close> loop over a list whose body may fail to return.\<close>

fun for_each :: "('a \<Rightarrow> 's \<Rightarrow> 's option) \<Rightarrow> 'a list \<Rightarrow> 's \<Rightarrow> 's option" where
  "for_each body [] s = Some s"
| "for_each body (a # as) s =
     (case body a s of None \<Rightarrow> None | Some s' \<Rightarrow> for_each body as s')"

text \<open>The body of the inner loop of \<open>detectShapes\<close> at column \<open>px\<close> of row \<open>py\<close>.\<close>

definition scan_pixel :: "(double \<Rightarrow> double) \<Rightarrow> nat \<Rightarrow> nat \<Rightarrow> scan_state \<Rightarrow> scan_state option" where
  "scan_pixel lg py px s =
     (if binaryMatrix (sdet s) ! py ! px \<and> \<not> visited (sdet s) ! py ! px then
        (case floodFill (int px) (int py) (sdet s) of
           None \<Rightarrow> None
         | Some (shapePixels, d') \<Rightarrow>
             let s1 = s\<lparr>sdet := d', regions := regions s @ [shapePixels]\<rparr> in
             if length shapePixels > minShapeSize then
               (let s2 = s1\<lparr>analysed := analysed s1 @ [shapePixels]\<rparr> in
                case analyzeShape lg d' shapePixels of
                  Some shape \<Rightarrow> Some (s2\<lparr>acc_shapes := acc_shapes s2 @ [shape]\<rparr>)
                | None \<Rightarrow> Some s2)
             else Some s1)
      else Some s)"

definition scan_row :: "(double \<Rightarrow> double) \<Rightarrow> nat \<Rightarrow> scan_state \<Rightarrow> scan_state option" where
  "scan_row lg py s = for_each (scan_pixel lg py) [0..<width (sdet s)] s"

text \<open>The assignments and initialisations at the head of \<open>detectShapes\<close>.\<close>

definition load_image :: "ImageData \<Rightarrow> ShapeDetector \<Rightarrow> ShapeDetector" where
  "load_image img d =
     initializeVisited (initializeBinaryMatrix
       (d\<lparr>width := img_width img, height := img_height img, data := Some (img_data img)\<rparr>))"

text \<open>The whole run, with the history lists still visible.\<close>

definition detect_run :: "(double \<Rightarrow> double) \<Rightarrow> ImageData \<Rightarrow> ShapeDetector \<Rightarrow> scan_state option" where
  "detect_run lg img d =
     (let d0 = load_image img d
      in for_each (scan_row lg) [0..<height d0]
           \<lparr>sdet = d0, acc_shapes = [], regions = [], analysed = []\<rparr>)"

definition detectShapes ::
  "(double \<Rightarrow> double) \<Rightarrow> ImageData \<Rightarrow> ShapeDetector \<Rightarrow> (DetectionResult \<times> ShapeDetector) option" where
  "detectShapes lg img d =
     map_option
       (\<lambda>s. (\<lparr>shapes = acc_shapes s,
                imageStats = \<lparr>stats_width = width (sdet s), stats_height = height (sdet s)\<rparr>\<rparr>,
              sdet s))
       (detect_run lg img d)"

section \<open>Vocabulary of the proofs and concrete inputs\<close>

text \<open>A grid of \<open>h\<close> rows, each of \<open>w\<close> cells.\<close>

definition wf_grid :: "nat \<Rightarrow> nat \<Rightarrow> bool list list \<Rightarrow> bool" where
  "wf_grid w h m \<longleftrightarrow> length m = h \<and> list_all (\<lambda>row. length row = w) m"

text \<open>The cells of a grid that are true, inside the image, as a set of pixels.\<close>

definition marked :: "nat \<Rightarrow> nat \<Rightarrow> bool list list \<Rightarrow> pixel set" where
  "marked w h m = {(px, py). 0 \<le> px \<and> px < int w \<and> 0 \<le> py \<and> py < int h \<and> cell m px py}"

text \<open>The foreground pixels, and below them the pixels marked visited.\<close>

definition foreground :: "ShapeDetector \<Rightarrow> pixel set" where
  "foreground d = marked (width d) (height d) (binaryMatrix d)"

definition seen :: "ShapeDetector \<Rightarrow> pixel set" where
  "seen d = marked (width d) (height d) (visited d)"

text \<open>The invariant of the fill loop, relative to the detector \<open>d0\<close> at the call of
  \<open>floodFill\<close>: the grid keeps its shape, no pixel is listed twice in \<open>pixels\<close> and \<open>queue\<close>,
  the listed pixels are foreground and were not visited before the call, and they are exactly
  the pixels marked since.\<close>

definition flood_inv :: "ShapeDetector \<Rightarrow> flood_state \<Rightarrow> bool" where
  "flood_inv d0 s \<longleftrightarrow>
     width (det s) = width d0 \<and> height (det s) = height d0 \<and>
     binaryMatrix (det s) = binaryMatrix d0 \<and> data (det s) = data d0 \<and>
     wf_grid (width d0) (height d0) (visited (det s)) \<and>
     distinct (pixels s @ queue s) \<and>
     set (pixels s @ queue s) \<subseteq> foreground d0 \<and>
     set (pixels s @ queue s) \<inter> seen d0 = {} \<and>
     seen (det s) = seen d0 \<union> set (pixels s @ queue s)"

text \<open>What decreases in each iteration of the fill loop.\<close>

definition flood_measure :: "ShapeDetector \<Rightarrow> flood_state \<Rightarrow> nat" where
  "flood_measure d0 s = 2 * card (foreground d0 - seen (det s)) + length (queue s)"

text \<open>The invariant of the raster scan, relative to the detector \<open>d0\<close> after initialisation.\<close>

definition scan_inv :: "(double \<Rightarrow> double) \<Rightarrow> ShapeDetector \<Rightarrow> scan_state \<Rightarrow> bool" where
  "scan_inv lg d0 s \<longleftrightarrow>
     width (sdet s) = width d0 \<and> height (sdet s) = height d0 \<and>
     binaryMatrix (sdet s) = binaryMatrix d0 \<and> data (sdet s) = data d0 \<and>
     wf_grid (width d0) (height d0) (visited (sdet s)) \<and>
     distinct (concat (regions s)) \<and>
     set (concat (regions s)) = seen (sdet s) \<and>
     seen (sdet s) \<subseteq> foreground d0 \<and>
     analysed s = filter (\<lambda>r. minShapeSize < length r) (regions s) \<and>
     acc_shapes s = List.map_filter (analyzeShape lg d0) (analysed s)"

text \<open>The intermediate values of \<open>analyzeShape\<close>, as functions of the detector and the pixel list.\<close>

definition boxOf :: "ShapeDetector \<Rightarrow> pixel list \<Rightarrow> BoundingBox" where
  "boxOf d ps =
     (case boundsLoop d ps of
        (minX, minY, maxX, maxY, sumX, sumY) \<Rightarrow>
          \<lparr>box_x = minX, box_y = minY, box_width = maxX - minX + 1, box_height = maxY - minY + 1\<rparr>)"

definition centerOf :: "ShapeDetector \<Rightarrow> pixel list \<Rightarrow> double \<times> double" where
  "centerOf d ps =
     (case boundsLoop d ps of
        (minX, minY, maxX, maxY, sumX, sumY) \<Rightarrow>
          (fdiv (real_of_int sumX) (real (length ps)), fdiv (real_of_int sumY) (real (length ps))))"

definition aspectRatioOf :: "ShapeDetector \<Rightarrow> pixel list \<Rightarrow> double" where
  "aspectRatioOf d ps =
     fdiv (real_of_int (box_width (boxOf d ps))) (real_of_int (max 1 (box_height (boxOf d ps))))"

definition extentOf :: "ShapeDetector \<Rightarrow> pixel list \<Rightarrow> double" where
  "extentOf d ps =
     fdiv (real (length ps)) (real_of_int (box_width (boxOf d ps) * box_height (boxOf d ps)))"

definition classOf :: "ShapeDetector \<Rightarrow> pixel list \<Rightarrow> ShapeType \<times> double" where
  "classOf d ps =
     classify (circularityOf (length ps) (perimeterLoop ps)) (aspectRatioOf d ps) (extentOf d ps)"

definition finalConfidence :: "(double \<Rightarrow> double) \<Rightarrow> ShapeDetector \<Rightarrow> pixel list \<Rightarrow> double" where
  "finalConfidence lg d ps =
     max (lit 0.1) (min (lit 0.99) (fmul (snd (classOf d ps)) (sizePenalty lg (length ps))))"

text \<open>
  The perimeter and the circularity as the specification words them: the Euclidean distances
  between consecutive pixels of the list, the last pixel paired with the first, summed in
  that order; and \<open>4\<pi>\<cdot>area / perimeter\<^sup>2\<close> when the perimeter is positive, else 0. The
  arithmetic is that of doubles.
\<close>

definition euclid :: "pixel \<Rightarrow> pixel \<Rightarrow> double" where
  "euclid p q =
     fsqrt (fadd (fmul (real_of_int (fst q - fst p)) (real_of_int (fst q - fst p)))
                 (fmul (real_of_int (snd q - snd p)) (real_of_int (snd q - snd p))))"

definition spec_perimeter :: "pixel list \<Rightarrow> double" where
  "spec_perimeter ps = foldl fadd 0 (map2 euclid ps (rotate1 ps))"

definition spec_circularity :: "pixel list \<Rightarrow> double" where
  "spec_circularity ps =
     (if spec_perimeter ps > 0
      then fdiv (fmul (fmul 4 Math_PI) (real (length ps)))
                (fmul (spec_perimeter ps) (spec_perimeter ps))
      else 0)"

text \<open>A correctly rounded \<open>log10\<close>, as one admissible \<open>Math.log10\<close>; it returns 0 at 1.\<close>

definition clog10 :: "double \<Rightarrow> double" where
  "clog10 x = rnd (log 10 x)"

text \<open>The detector as the field initialisers of the class leave it.\<close>

definition fresh_detector :: ShapeDetector where
  "fresh_detector = \<lparr>width = 0, height = 0, data = None, binaryMatrix = [], visited = []\<rparr>"

text \<open>A 10 by 10 image, every pixel black, and what the run makes of it.\<close>

definition square_image :: ImageData where
  "square_image = \<lparr>img_width = 10, img_height = 10, img_data = replicate 400 0\<rparr>"

definition square_loaded :: ShapeDetector where
  "square_loaded = \<lparr>width = 10, height = 10, data = Some (replicate 400 0),
      binaryMatrix = replicate 10 (replicate 10 True),
      visited = replicate 10 (replicate 10 False)\<rparr>"

definition square_region :: "pixel list" where
  "square_region =
     concat (map (\<lambda>k. map (\<lambda>j. (int k, int j)) [0..<k] @ map (\<lambda>i. (int i, int k)) [0..<Suc k])
               [0..<10])"

definition square_shape :: DetectedShape where
  "square_shape = \<lparr>shape_type = Square, confidence = fmul (lit 0.85) (lit 0.8),
      boundingBox = \<lparr>box_x = 0, box_y = 0, box_width = 10, box_height = 10\<rparr>,
      center = (4.5, 4.5), area = 100\<rparr>"

text \<open>A 20 by 1 image, every pixel black: one region of exactly 20 pixels.\<close>

definition line_image :: ImageData where
  "line_image = \<lparr>img_width = 20, img_height = 1, img_data = replicate 80 0\<rparr>"

definition line_loaded :: ShapeDetector where
  "line_loaded = \<lparr>width = 20, height = 1, data = Some (replicate 80 0),
      binaryMatrix = [replicate 20 True], visited = [replicate 20 False]\<rparr>"

definition line_region :: "pixel list" where
  "line_region = map (\<lambda>i. (int i, 0)) [0..<20]"

definition square_done :: ShapeDetector where
  "square_done = square_loaded\<lparr>visited := replicate 10 (replicate 10 True)\<rparr>"

definition line_done :: ShapeDetector where
  "line_done = line_loaded\<lparr>visited := [replicate 20 True]\<rparr>"

text \<open>
  An 8 by 10 image, every pixel black except the last one, (7, 9), which is white: one region
  of 79 pixels in a bounding box of aspect ratio 8/10, at the edge of the square guard.
\<close>

definition notch_image :: ImageData where
  "notch_image = \<lparr>img_width = 8, img_height = 10,
      img_data = replicate 316 0 @ [255, 255, 255, 255]\<rparr>"

definition notch_loaded :: ShapeDetector where
  "notch_loaded = \<lparr>width = 8, height = 10,
      data = Some (replicate 316 0 @ [255, 255, 255, 255]),
      binaryMatrix = replicate 9 (replicate 8 True) @ [replicate 7 True @ [False]],
      visited = replicate 10 (replicate 8 False)\<rparr>"

definition notch_done :: ShapeDetector where
  "notch_done =
     notch_loaded\<lparr>visited := replicate 9 (replicate 8 True) @ [replicate 7 True @ [False]]\<rparr>"

definition notch_region :: "pixel list" where
  "notch_region =
   [(0, 0), (1, 0), (0, 1), (1, 1), (2, 0), (2, 1), (0, 2), (1, 2), (2, 2),
    (3, 0), (3, 1), (3, 2), (0, 3), (1, 3), (2, 3), (3, 3), (4, 0), (4, 1),
    (4, 2), (4, 3), (0, 4), (1, 4), (2, 4), (3, 4), (4, 4), (5, 0), (5, 1),
    (5, 2), (5, 3), (5, 4), (0, 5), (1, 5), (2, 5), (3, 5), (4, 5), (5, 5),
    (6, 0), (6, 1), (6, 2), (6, 3), (6, 4), (6, 5), (0, 6), (1, 6), (2, 6),
    (3, 6), (4, 6), (5, 6), (6, 6), (7, 0), (7, 1), (7, 2), (7, 3), (7, 4),
    (7, 5), (7, 6), (0, 7), (1, 7), (2, 7), (3, 7), (4, 7), (5, 7), (6, 7),
    (7, 7), (0, 8), (1, 8), (2, 8), (3, 8), (4, 8), (5, 8), (6, 8), (7, 8),
    (0, 9), (1, 9), (2, 9), (3, 9), (4, 9), (5, 9), (6, 9)]"

definition notch_confidence :: double where
  "notch_confidence =
     fmul (fmul (lit 0.85) (fdiv 79 80)) (fadd (fdiv (clog10 (fdiv 79 100)) 2) (lit 0.8))"

definition notch_shape :: DetectedShape where
  "notch_shape = \<lparr>shape_type = Square, confidence = notch_confidence,
      boundingBox = \<lparr>box_x = 0, box_y = 0, box_width = 8, box_height = 10\<rparr>,
      center = (fdiv 273 79, fdiv 351 79), area = 79\<rparr>"

text \<open>The 200 by 200 white canvas with a black disc of radius 50 centred at (100, 100); alpha 255.\<close>

definition disc_image :: ImageData where
  "disc_image =
     \<lparr>img_width = 200, img_height = 200,
      img_data = concat (map (\<lambda>i.
          if (int (i mod 200) - 100)\<^sup>2 + (int (i div 200) - 100)\<^sup>2 \<le> 2500
          then [0, 0, 0, 255] else [255, 255, 255, 255]) [0..<40000])\<rparr>"

text \<open>Two one-pixel images that differ in the alpha byte only.\<close>

definition pixel_a :: ImageData where
  "pixel_a = \<lparr>img_width = 1, img_height = 1, img_data = [250, 250, 10, 0]\<rparr>"

definition pixel_b :: ImageData where
  "pixel_b = \<lparr>img_width = 1, img_height = 1, img_data = [250, 250, 10, 255]\<rparr>"

section \<open>Lemmas\<close>

subsection \<open>Rounding to the nearest double\<close>

lemma rne_of_int: "rne (of_int k) = k"
  by (simp add: rne_def)

lemma rne_lower: "\<lfloor>r\<rfloor> \<le> rne r"
  by (simp add: rne_def Let_def)

lemma rne_upper: "rne r \<le> \<lfloor>r\<rfloor> + 1"
  by (simp add: rne_def Let_def)

lemma rne_mono:
  assumes "r \<le> s"
  shows "rne r \<le> rne s"
proof (cases "\<lfloor>r\<rfloor> = \<lfloor>s\<rfloor>")
  case True
  then have "r - of_int \<lfloor>r\<rfloor> \<le> s - of_int \<lfloor>s\<rfloor>" using assms by simp
  with True show ?thesis by (auto simp: rne_def Let_def)
next
  case False
  have "\<lfloor>r\<rfloor> \<le> \<lfloor>s\<rfloor>" using assms by (rule floor_mono)
  with False have "\<lfloor>r\<rfloor> + 1 \<le> \<lfloor>s\<rfloor>" by simp
  with rne_upper[of r] rne_lower[of s] show ?thesis by linarith
qed

lemma ulp_pos: "0 < ulp x"
  by (simp add: ulp_def)

lemma binade_bounds:
  assumes "0 < x"
  shows "2 powr of_int (binade x) \<le> x" "x < 2 powr (of_int (binade x) + 1)"
proof -
  have l: "of_int (binade x) \<le> log 2 x" "log 2 x < of_int (binade x) + 1"
    using assms by (simp_all add: binade_def)
  from l(1) show "2 powr of_int (binade x) \<le> x"
    using assms by (simp add: le_log_iff)
  from l(2) show "x < 2 powr (of_int (binade x) + 1)"
    using assms by (simp add: log_less_iff)
qed

lemma binade_unique:
  assumes "0 < x" and "2 powr of_int e \<le> x" and "x < 2 powr (of_int e + 1)"
  shows "binade x = e"
proof -
  have "of_int e \<le> log 2 x" using assms(1,2) by (simp add: le_log_iff)
  moreover have "log 2 x < of_int e + 1" using assms(1,3) by (simp add: log_less_iff)
  ultimately show ?thesis using assms(1) by (simp add: binade_def floor_unique)
qed

lemma binade_mono:
  assumes "0 < x" and "x \<le> y"
  shows "binade x \<le> binade y"
proof -
  have "log 2 x \<le> log 2 y" using assms by simp
  then show ?thesis using assms by (simp add: binade_def floor_mono)
qed

lemma ratio_bounds:
  assumes "0 < x"
  shows "2 ^ 52 \<le> x / ulp x" "x / ulp x < 2 ^ 53"
proof -
  let ?e = "of_int (binade x) :: real"
  have u: "x / ulp x = x * 2 powr (52 - ?e)"
    by (simp add: ulp_def powr_diff field_simps)
  have "2 powr ?e * 2 powr (52 - ?e) \<le> x * 2 powr (52 - ?e)"
    using binade_bounds(1)[OF assms] by (intro mult_right_mono) simp_all
  moreover have "2 powr ?e * 2 powr (52 - ?e) = (2::real) powr 52"
    by (simp add: powr_add[symmetric])
  moreover have "(2::real) powr 52 = 2 ^ 52"
    by (simp add: powr_numeral)
  ultimately show "2 ^ 52 \<le> x / ulp x" by (simp only: u)
  have "x * 2 powr (52 - ?e) < 2 powr (?e + 1) * 2 powr (52 - ?e)"
    using binade_bounds(2)[OF assms] by (intro mult_strict_right_mono) simp_all
  moreover have "2 powr (?e + 1) * 2 powr (52 - ?e) = (2::real) powr 53"
    by (simp add: powr_add[symmetric])
  moreover have "(2::real) powr 53 = 2 ^ 53"
    by (simp add: powr_numeral)
  ultimately show "x / ulp x < 2 ^ 53" by (simp only: u)
qed

lemma rnd_zero: "rnd 0 = 0"
  by (simp add: rnd_def)

lemma rnd_nonneg:
  assumes "0 \<le> x"
  shows "0 \<le> rnd x"
proof (cases "x = 0")
  case True
  then show ?thesis by (simp add: rnd_def)
next
  case False
  with assms have x: "0 < x" by simp
  have "0 \<le> x / ulp x" using x ulp_pos[of x] by simp
  then have "0 \<le> \<lfloor>x / ulp x\<rfloor>" by simp
  with rne_lower[of "x / ulp x"] have "0 \<le> rne (x / ulp x)" by linarith
  then show ?thesis using False ulp_pos[of x] by (simp add: rnd_def)
qed

lemma rnd_pos_bounds:
  assumes "0 < x"
  shows "2 powr of_int (binade x) \<le> rnd x" "rnd x \<le> 2 powr (of_int (binade x) + 1)"
proof -
  let ?e = "of_int (binade x) :: real"
  have a: "rne (2 ^ 52) \<le> rne (x / ulp x)"
    by (rule rne_mono) (rule ratio_bounds(1)[OF assms])
  have b: "rne (x / ulp x) \<le> rne (2 ^ 53)"
    by (rule rne_mono) (rule less_imp_le, rule ratio_bounds(2)[OF assms])
  have c: "rne (2 ^ 52) = 2 ^ 52" "rne (2 ^ 53) = 2 ^ 53"
    using rne_of_int[of "2 ^ 52"] rne_of_int[of "2 ^ 53"] by simp_all
  have r: "rnd x = of_int (rne (x / ulp x)) * ulp x"
    using assms by (simp add: rnd_def)
  have lo: "(2::real) ^ 52 * ulp x \<le> of_int (rne (x / ulp x)) * ulp x"
  proof (rule mult_right_mono)
    have "(of_int (2 ^ 52) :: real) \<le> of_int (rne (x / ulp x))"
      using a c(1) by (simp only: of_int_le_iff)
    then show "(2::real) ^ 52 \<le> of_int (rne (x / ulp x))" by simp
    show "0 \<le> ulp x" using ulp_pos[of x] by simp
  qed
  have hi: "of_int (rne (x / ulp x)) * ulp x \<le> (2::real) ^ 53 * ulp x"
  proof (rule mult_right_mono)
    have "(of_int (rne (x / ulp x)) :: real) \<le> of_int (2 ^ 53)"
      using b c(2) by (simp only: of_int_le_iff)
    then show "of_int (rne (x / ulp x)) \<le> (2::real) ^ 53" by simp
    show "0 \<le> ulp x" using ulp_pos[of x] by simp
  qed
  have p52: "(2::real) ^ 52 * ulp x = 2 powr ?e"
  proof -
    have h: "(2::real) ^ 52 = 2 powr 52" by (simp add: powr_numeral)
    have "(2::real) ^ 52 * ulp x = 2 powr 52 * 2 powr (?e - 52)"
      unfolding ulp_def h by (rule refl)
    also have "\<dots> = 2 powr (52 + (?e - 52))" by (rule powr_add[symmetric])
    also have "\<dots> = 2 powr ?e" by simp
    finally show ?thesis .
  qed
  have p53: "(2::real) ^ 53 * ulp x = 2 powr (?e + 1)"
  proof -
    have h: "(2::real) ^ 53 = 2 powr 53" by (simp add: powr_numeral)
    have "(2::real) ^ 53 * ulp x = 2 powr 53 * 2 powr (?e - 52)"
      unfolding ulp_def h by (rule refl)
    also have "\<dots> = 2 powr (53 + (?e - 52))" by (rule powr_add[symmetric])
    also have "\<dots> = 2 powr (?e + 1)" by (simp add: add.commute)
    finally show ?thesis .
  qed
  from lo p52 r show "2 powr ?e \<le> rnd x" by simp
  from hi p53 r show "rnd x \<le> 2 powr (?e + 1)" by simp
qed

lemma rnd_mono:
  assumes "0 \<le> x" and "x \<le> y"
  shows "rnd x \<le> rnd y"
proof (cases "x = 0")
  case True
  with assms rnd_nonneg[of y] show ?thesis by (simp add: rnd_zero)
next
  case False
  with assms have x: "0 < x" and y: "0 < y" by simp_all
  have be: "binade x \<le> binade y" using x assms(2) by (rule binade_mono)
  show ?thesis
  proof (cases "binade x = binade y")
    case True
    then have u: "ulp x = ulp y" by (simp add: ulp_def)
    have "x / ulp y \<le> y / ulp y" using assms(2) ulp_pos[of y] by (simp add: divide_right_mono)
    then have "rne (x / ulp y) \<le> rne (y / ulp y)" by (rule rne_mono)
    then have "(of_int (rne (x / ulp y)) :: real) \<le> of_int (rne (y / ulp y))" by simp
    then have "of_int (rne (x / ulp y)) * ulp y \<le> of_int (rne (y / ulp y)) * ulp y"
      using ulp_pos[of y] by (intro mult_right_mono) simp_all
    then show ?thesis using x y u by (simp add: rnd_def)
  next
    case False
    with be have "binade x + 1 \<le> binade y" by simp
    then have "(of_int (binade x) :: real) + 1 \<le> of_int (binade y)"
      by (metis of_int_1 of_int_add of_int_le_iff)
    then have "(2::real) powr (of_int (binade x) + 1) \<le> 2 powr of_int (binade y)"
      by simp
    with rnd_pos_bounds(2)[OF x] rnd_pos_bounds(1)[OF y] show ?thesis by linarith
  qed
qed

lemma rnd_exact:
  assumes "0 < k" and "k < 2 ^ 53"
  shows "rnd (of_int k * 2 powr of_int j) = of_int k * 2 powr of_int j"
proof -
  let ?y = "of_int k * 2 powr of_int j :: real"
  let ?e = "binade ?y"
  have y: "0 < ?y" using assms(1) by simp
  have "?y < 2 ^ 53 * 2 powr of_int j"
  proof (rule mult_strict_right_mono)
    have "(of_int k :: real) < of_int (2 ^ 53)" using assms(2) by (simp only: of_int_less_iff)
    then show "(of_int k :: real) < 2 ^ 53" by simp
    show "(0::real) < 2 powr of_int j" by simp
  qed
  moreover have "(2::real) ^ 53 * 2 powr of_int j = 2 powr (53 + of_int j)"
  proof -
    have "(2::real) ^ 53 = 2 powr 53" by (simp add: powr_numeral)
    then show ?thesis by (simp add: powr_add)
  qed
  ultimately have "2 powr of_int ?e < (2::real) powr (53 + of_int j)"
    using binade_bounds(1)[OF y] by linarith
  then have "(of_int ?e :: real) < 53 + of_int j" by simp
  then have "(of_int ?e :: real) < of_int (53 + j)" by simp
  then have "?e < 53 + j" by (simp only: of_int_less_iff)
  then have m: "0 \<le> j - ?e + 52" by simp
  define m where "m = nat (j - ?e + 52)"
  have mj: "of_int j - (of_int ?e - 52) = (real m)" using m by (simp add: m_def)
  have "?y / ulp ?y = of_int k * 2 powr (of_int j - (of_int ?e - 52))"
    by (simp add: ulp_def powr_diff)
  also have "\<dots> = of_int k * 2 powr (real m)" by (simp only: mj)
  also have "\<dots> = of_int k * 2 ^ m" by (simp add: powr_realpow)
  also have "\<dots> = of_int (k * 2 ^ m)" by simp
  finally have q: "?y / ulp ?y = of_int (k * 2 ^ m)" .
  have "?y \<noteq> 0" using less_imp_neq[OF y] by (rule not_sym)
  then have "rnd ?y = of_int (rne (?y / ulp ?y)) * ulp ?y" by (simp only: rnd_def if_False)
  also have "\<dots> = of_int (k * 2 ^ m) * ulp ?y" by (simp only: q rne_of_int)
  also have "\<dots> = (?y / ulp ?y) * ulp ?y" by (simp only: q)
  also have "\<dots> = ?y" using ulp_pos[of ?y] by simp
  finally show ?thesis .
qed

lemma rnd_dyadic:
  assumes "0 < k" and "k < 2 ^ 53"
  shows "rnd (of_int k / 2 ^ n) = of_int k / 2 ^ n"
proof -
  have "(2::real) powr of_int (- int n) = 1 / 2 ^ n"
    by (simp add: powr_minus powr_realpow divide_inverse)
  with rnd_exact[OF assms, of "- int n"] show ?thesis by simp
qed

lemma rnd_nat:
  assumes "n < 2 ^ 53"
  shows "rnd (real n) = real n"
proof (cases "n = 0")
  case True
  then show ?thesis by (simp add: rnd_zero)
next
  case False
  have "int n < 2 ^ 53" using assms by (metis of_nat_less_iff of_nat_numeral of_nat_power)
  with False rnd_dyadic[of "int n" 0] show ?thesis by simp
qed


lemma rnd_idem:
  assumes "0 \<le> x"
  shows "rnd (rnd x) = rnd x"
proof (cases "x = 0")
  case True
  then show ?thesis by (simp add: rnd_zero)
next
  case False
  with assms have x: "0 < x" by simp
  define K where "K = rne (x / ulp x)"
  have r: "rnd x = of_int K * 2 powr of_int (binade x - 52)"
    using x by (simp add: rnd_def K_def ulp_def)
  have "rne (2 ^ 52) \<le> K" unfolding K_def
    by (rule rne_mono) (rule ratio_bounds(1)[OF x])
  moreover have "K \<le> rne (2 ^ 53)" unfolding K_def
    by (rule rne_mono) (rule less_imp_le, rule ratio_bounds(2)[OF x])
  moreover have "rne (2 ^ 52) = 2 ^ 52" "rne (2 ^ 53) = 2 ^ 53"
    using rne_of_int[of "2 ^ 52"] rne_of_int[of "2 ^ 53"] by simp_all
  ultimately have K: "2 ^ 52 \<le> K" "K \<le> 2 ^ 53" by simp_all
  show ?thesis
  proof (cases "K < 2 ^ 53")
    case True
    have "0 < K" using K(1) by simp
    from rnd_exact[OF this True, of "binade x - 52"] show ?thesis by (simp only: r)
  next
    case False
    with K(2) have "K = 2 ^ 53" by simp
    then have "rnd x = 2 ^ 53 * 2 powr of_int (binade x - 52)" by (simp add: r)
    also have "(2::real) ^ 53 = 2 powr 53" by (simp add: powr_numeral)
    also have "2 powr 53 * 2 powr of_int (binade x - 52) = (2::real) powr (53 + of_int (binade x - 52))"
      by (rule powr_add[symmetric])
    also have "53 + real_of_int (binade x - 52) = of_int (binade x + 1)" by simp
    finally have v: "rnd x = of_int 1 * 2 powr of_int (binade x + 1)" by simp
    from rnd_exact[of 1 "binade x + 1"] show ?thesis by (simp only: v) simp
  qed
qed

lemma rnd_lower:
  assumes "0 < k" and "k < 2 ^ 53" and "of_int k / 2 ^ n \<le> x"
  shows "of_int k / 2 ^ n \<le> rnd x"
proof -
  have "0 \<le> (of_int k / 2 ^ n :: real)" using assms(1) by simp
  from rnd_mono[OF this assms(3)] rnd_dyadic[OF assms(1,2), of n] show ?thesis by simp
qed

lemma rnd_upper:
  assumes "0 < k" and "k < 2 ^ 53" and "0 \<le> x" and "x \<le> of_int k / 2 ^ n"
  shows "rnd x \<le> of_int k / 2 ^ n"
  using rnd_mono[OF assms(3,4)] rnd_dyadic[OF assms(1,2), of n] by simp

lemma rnd_one: "rnd 1 = 1"
  using rnd_nat[of 1] by simp

lemma rnd_four: "rnd 4 = 4"
  using rnd_nat[of 4] by simp

lemma rnd_sixteen: "rnd 16 = 16"
  using rnd_nat[of 16] by simp

lemma lit_bounds:
  "lit 0.1 \<le> 1 / 8" "1 / 8 \<le> lit 0.2" "lit 0.2 \<le> 1 / 4"
  "9 / 16 \<le> lit 0.6" "lit 0.6 \<le> 39 / 64" "5 / 8 \<le> lit 0.7" "lit 0.7 \<le> 3 / 4"
  "3 / 4 \<le> lit 0.8" "lit 0.8 \<le> 7 / 8" "13 / 16 \<le> lit 0.85" "lit 0.85 \<le> 7 / 8"
  "49 / 64 \<le> lit 0.99" "lit 0.99 \<le> 1"
  using rnd_upper[of 1 "0.1" 3] rnd_lower[of 1 3 "0.2"] rnd_upper[of 1 "0.2" 2]
    rnd_lower[of 9 4 "0.6"] rnd_upper[of 39 "0.6" 6] rnd_lower[of 5 3 "0.7"]
    rnd_upper[of 3 "0.7" 2] rnd_lower[of 3 2 "0.8"] rnd_upper[of 7 "0.8" 3]
    rnd_lower[of 13 4 "0.85"] rnd_upper[of 7 "0.85" 3] rnd_lower[of 49 6 "0.99"]
    rnd_upper[of 1 "0.99" 0]
  by (simp_all add: lit_def)

lemma lit_idem: "0 \<le> c \<Longrightarrow> rnd (lit c) = lit c"
  by (simp add: lit_def rnd_idem)

text \<open>
  Rounding is odd and monotone, and a real whose scaled value lies within one half of an
  integer \<open>k\<close> with 53 significant bits rounds to \<open>k\<close>, scaled back.
\<close>

lemma rne_minus: "rne (- r) = - rne r"
proof (cases "r = of_int \<lfloor>r\<rfloor>")
  case True
  then obtain k where "r = of_int k" ..
  then have "- r = of_int (- k)" by simp
  then show ?thesis using rne_of_int[of k] rne_of_int[of "- k"] \<open>r = of_int k\<close> by simp
next
  case False
  then have lt: "of_int \<lfloor>r\<rfloor> < r" using of_int_floor_le[of r] by linarith
  have "\<lfloor>- r\<rfloor> = - \<lfloor>r\<rfloor> - 1"
  proof (rule floor_unique)
    have "r \<le> of_int \<lfloor>r\<rfloor> + 1" using floor_correct[of r] by linarith
    moreover have "real_of_int (- \<lfloor>r\<rfloor> - 1) = - of_int \<lfloor>r\<rfloor> - 1" by simp
    ultimately show "of_int (- \<lfloor>r\<rfloor> - 1) \<le> - r" by linarith
    show "- r < of_int (- \<lfloor>r\<rfloor> - 1) + 1" using lt by simp
  qed
  then show ?thesis using lt by (auto simp: rne_def Let_def)
qed

lemma rnd_minus: "rnd (- x) = - rnd x"
  by (simp add: rnd_def ulp_def binade_def rne_minus)

lemma rnd_mono_all:
  assumes "x \<le> y"
  shows "rnd x \<le> rnd y"
proof (cases "0 \<le> x")
  case True
  then show ?thesis using assms by (rule rnd_mono)
next
  case False
  then have x: "0 \<le> - x" by simp
  show ?thesis
  proof (cases "0 \<le> y")
    case True
    from rnd_nonneg[OF x] rnd_nonneg[OF True] show ?thesis by (simp add: rnd_minus)
  next
    case False
    then have "0 \<le> - y" "- y \<le> - x" using assms by simp_all
    from rnd_mono[OF this] show ?thesis by (simp add: rnd_minus)
  qed
qed

lemma rnd_near:
  assumes "2 ^ 52 \<le> k" and "k < 2 ^ 53"
    and "\<bar>x * 2 powr of_int j - of_int k\<bar> < 1 / 2"
    and "2 ^ 52 \<le> x * 2 powr of_int j"
  shows "rnd x = of_int k / 2 powr of_int j"
proof -
  let ?s = "2 powr of_int j :: real"
  have s: "0 < ?s" by simp
  have "(0::real) < 2 ^ 52" by simp
  with assms(4) have xp: "0 < x * ?s" by linarith
  then have x: "0 < x" using s by (simp add: zero_less_mult_iff)
  have h52: "(2::real) ^ 52 = 2 powr 52" by (simp add: powr_numeral)
  have h53: "(2::real) ^ 53 = 2 powr 53" by (simp add: powr_numeral)
  have up: "x * ?s < 2 ^ 53"
  proof -
    have "k \<le> 2 ^ 53 - 1" using assms(2) by simp
    then have "real_of_int k \<le> real_of_int (2 ^ 53 - 1)" by (simp only: of_int_le_iff)
    then have "real_of_int k \<le> 2 ^ 53 - 1" by simp
    with assms(3) show ?thesis by linarith
  qed
  have e1: "2 powr of_int (52 - j) \<le> x"
  proof -
    have "2 powr of_int (52 - j) = 2 powr 52 / ?s" by (simp add: powr_diff)
    also have "\<dots> \<le> x" using assms(4) s by (simp add: h52 pos_divide_le_eq)
    finally show ?thesis .
  qed
  have e2: "x < 2 powr (of_int (52 - j) + 1)"
  proof -
    have "(2::real) powr (of_int (52 - j) + 1) = 2 powr (53 - of_int j)" by simp
    also have "\<dots> = 2 powr 53 / ?s" by (rule powr_diff)
    finally have "2 powr (of_int (52 - j) + 1) = 2 powr 53 / ?s" .
    moreover have "x < 2 powr 53 / ?s" using up s by (simp add: h53 pos_less_divide_eq)
    ultimately show ?thesis by simp
  qed
  have b: "binade x = 52 - j" using x e1 e2 by (rule binade_unique)
  have u: "ulp x = 1 / ?s" by (simp add: ulp_def b powr_minus divide_inverse)
  have r: "x / ulp x = x * ?s" by (simp add: u)
  have "rne (x * ?s) = k"
  proof -
    define t where "t = x * ?s - of_int k"
    have t: "\<bar>t\<bar> < 1 / 2" using assms(3) by (simp add: t_def)
    have xs: "x * ?s = of_int k + t" by (simp add: t_def)
    show ?thesis
    proof (cases "0 \<le> t")
      case True
      then have "\<lfloor>of_int k + t\<rfloor> = k" using t by (intro floor_unique) simp_all
      then show ?thesis using t True by (simp add: xs rne_def Let_def)
    next
      case False
      then have "\<lfloor>of_int k + t\<rfloor> = k - 1" using t by (intro floor_unique) simp_all
      then show ?thesis using t False by (simp add: xs rne_def Let_def)
    qed
  qed
  then show ?thesis using x by (simp add: rnd_def r u)
qed

lemma rnd_near_pow:
  assumes "2 ^ 52 \<le> k" and "k < 2 ^ 53"
    and "\<bar>x * 2 ^ n - of_int k\<bar> < 1 / 2"
    and "2 ^ 52 \<le> x * 2 ^ n"
  shows "rnd x = of_int k / 2 ^ n"
  using rnd_near[of k x "int n"] assms by (simp add: powr_realpow)


text \<open>
  The doubles nearest to 4/5, 6/5 and 1/5, and the square guard
  \<open>Math.abs(aspectRatio - 1) < 0.2\<close> at the aspect ratios 12/10 and 8/10: over the reals the
  difference would be exactly 0.2 and the guard false; in doubles the difference is
  \<open>900719925474099 / 2^52\<close>, one unit in the last place below the double 0.2, and the
  guard is true.
\<close>

lemma double_four_fifths: "rnd (4 / 5) = 3602879701896397 / 2 ^ 52"
  using rnd_near_pow[of 7205759403792794 "4 / 5" 53] by simp

lemma double_six_fifths: "rnd (6 / 5) = 5404319552844595 / 2 ^ 52"
  using rnd_near_pow[of 5404319552844595 "6 / 5" 52] by simp

lemma double_one_fifth: "rnd (1 / 5) = 3602879701896397 / 2 ^ 54"
  using rnd_near_pow[of 7205759403792794 "1 / 5" 55] by simp

lemma square_guard_six_fifths: "\<bar>fsub (fdiv 12 10) 1\<bar> < lit 0.2"
proof -
  have a: "fdiv 12 10 = 5404319552844595 / 2 ^ 52"
    using double_six_fifths by (simp add: fdiv_def)
  have "fsub (fdiv 12 10) 1 = rnd (900719925474099 / 2 ^ 52)"
    unfolding fsub_def a by (rule arg_cong[of _ _ rnd]) simp
  also have "\<dots> = 900719925474099 / 2 ^ 52"
    using rnd_dyadic[of 900719925474099 52] by simp
  finally have b: "fsub (fdiv 12 10) 1 = 900719925474099 / 2 ^ 52" .
  have c: "lit 0.2 = 3602879701896397 / 2 ^ 54"
    using double_one_fifth by (simp add: lit_def)
  show ?thesis unfolding b c by simp
qed

lemma square_guard_four_fifths: "\<bar>fsub (fdiv 8 10) 1\<bar> < lit 0.2"
proof -
  have a: "fdiv 8 10 = 3602879701896397 / 2 ^ 52"
    using double_four_fifths by (simp add: fdiv_def)
  have "fsub (fdiv 8 10) 1 = rnd (- (900719925474099 / 2 ^ 52))"
    unfolding fsub_def a by (rule arg_cong[of _ _ rnd]) simp
  also have "\<dots> = - (900719925474099 / 2 ^ 52)"
    using rnd_dyadic[of 900719925474099 52] by (simp only: rnd_minus) simp
  finally have b: "fsub (fdiv 8 10) 1 = - (900719925474099 / 2 ^ 52)" .
  have c: "lit 0.2 = 3602879701896397 / 2 ^ 54"
    using double_one_fifth by (simp add: lit_def)
  show ?thesis unfolding b c by simp
qed


subsection \<open>Grids and the fill loop\<close>

lemma nth_update_total: "xs[i := v] ! j = (if i = j \<and> i < length xs then v else xs ! j)"
  by (cases "i < length xs") (simp_all add: nth_list_update list_update_beyond)

lemma cell_mark:
  "cell (mark m px py) a b \<longleftrightarrow>
     (nat b = nat py \<and> nat py < length m \<and> nat a = nat px \<and> nat px < length (m ! nat py)) \<or> cell m a b"
  by (auto simp: cell_def mark_def nth_update_total)

lemma cell_mark_mono: "cell m a b \<Longrightarrow> cell (mark m px py) a b"
  by (simp add: cell_mark)

lemma wf_grid_row: "wf_grid w h m \<Longrightarrow> i < h \<Longrightarrow> length (m ! i) = w"
  by (simp add: wf_grid_def list_all_length)

lemma wf_grid_mark: "wf_grid w h m \<Longrightarrow> wf_grid w h (mark m px py)"
  by (auto simp: wf_grid_def mark_def list_all_length nth_update_total)

lemma marked_mark:
  assumes "wf_grid w h m" "0 \<le> px" "px < int w" "0 \<le> py" "py < int h"
  shows "marked w h (mark m px py) = insert (px, py) (marked w h m)"
proof -
  have len: "length m = h" using assms(1) by (simp add: wf_grid_def)
  have row: "length (m ! nat py) = w" using assms by (intro wf_grid_row[OF assms(1)]) simp
  show ?thesis
    using assms(2-5) by (auto simp: marked_def cell_mark len row)
qed

lemma marked_subset_box: "marked w h m \<subseteq> {0..<int w} \<times> {0..<int h}"
  by (auto simp: marked_def)

lemma finite_marked: "finite (marked w h m)"
  by (rule finite_subset[OF marked_subset_box]) simp

lemma marked_iff:
  "(int a, int b) \<in> marked w h m \<longleftrightarrow> a < w \<and> b < h \<and> m ! b ! a"
  by (simp add: marked_def cell_def)

lemma finite_foreground: "finite (foreground d)"
  by (simp add: foreground_def finite_marked)

lemma flood_init_inv:
  assumes "wf_grid (width d0) (height d0) (visited d0)"
    and "(sx, sy) \<in> foreground d0" and "(sx, sy) \<notin> seen d0"
  shows "flood_inv d0 (flood_init sx sy d0)"
proof -
  from assms(2) have b: "0 \<le> sx" "sx < int (width d0)" "0 \<le> sy" "sy < int (height d0)"
    by (auto simp: foreground_def marked_def)
  show ?thesis
    using assms b
    by (simp add: flood_inv_def flood_init_def seen_def wf_grid_mark marked_mark)
qed

lemma visit_neighbour_inv:
  assumes "flood_inv d0 s"
  shows "flood_inv d0 (visit_neighbour px py i s) \<and>
         flood_measure d0 (visit_neighbour px py i s) \<le> flood_measure d0 s"
proof -
  define nx where "nx = px + dx ! i"
  define ny where "ny = py + dy ! i"
  show ?thesis
  proof (cases "nx \<ge> 0 \<and> nx < int (width (det s)) \<and> ny \<ge> 0 \<and> ny < int (height (det s)) \<and>
            cell (binaryMatrix (det s)) nx ny \<and> \<not> cell (visited (det s)) nx ny")
    case False
    then have "visit_neighbour px py i s = s"
      by (auto simp: visit_neighbour_def Let_def nx_def ny_def)
    with assms show ?thesis by simp
  next
    case True
    then have eq: "visit_neighbour px py i s =
        s\<lparr>det := (det s)\<lparr>visited := mark (visited (det s)) nx ny\<rparr>, queue := queue s @ [(nx, ny)]\<rparr>"
      by (simp add: visit_neighbour_def Let_def nx_def ny_def)
    from assms have f: "width (det s) = width d0" "height (det s) = height d0"
      "binaryMatrix (det s) = binaryMatrix d0" "data (det s) = data d0"
      "wf_grid (width d0) (height d0) (visited (det s))"
      "distinct (pixels s @ queue s)" "set (pixels s @ queue s) \<subseteq> foreground d0"
      "set (pixels s @ queue s) \<inter> seen d0 = {}"
      "seen (det s) = seen d0 \<union> set (pixels s @ queue s)"
      by (simp_all add: flood_inv_def)
    from True f have fg: "(nx, ny) \<in> foreground d0"
      by (simp add: foreground_def marked_def)
    from True f(1,2) have ns: "(nx, ny) \<notin> seen (det s)"
      by (simp add: seen_def marked_def)
    have mk: "marked (width d0) (height d0) (mark (visited (det s)) nx ny)
              = insert (nx, ny) (seen (det s))"
      using True f by (simp add: seen_def marked_mark)
    have inv: "flood_inv d0 (visit_neighbour px py i s)"
      using f fg ns mk by (auto simp: eq flood_inv_def seen_def wf_grid_mark)
    have "foreground d0 - insert (nx, ny) (seen (det s)) = (foreground d0 - seen (det s)) - {(nx, ny)}"
      by auto
    moreover have "(nx, ny) \<in> foreground d0 - seen (det s)" using fg ns by simp
    moreover have "finite (foreground d0 - seen (det s))"
      using finite_foreground[of d0] by simp
    ultimately have "card (foreground d0 - insert (nx, ny) (seen (det s))) < card (foreground d0 - seen (det s))"
      by (simp only: card_Diff1_less)
    then have "flood_measure d0 (visit_neighbour px py i s) \<le> flood_measure d0 s"
      using f mk by (simp add: eq flood_measure_def seen_def)
    with inv show ?thesis by simp
  qed
qed

lemma fold_visit_inv:
  "flood_inv d0 s \<Longrightarrow>
     flood_inv d0 (fold (visit_neighbour px py) is s) \<and>
     flood_measure d0 (fold (visit_neighbour px py) is s) \<le> flood_measure d0 s"
proof (induction "is" arbitrary: s)
  case Nil
  then show ?case by simp
next
  case (Cons i "is")
  from visit_neighbour_inv[OF Cons.prems, of px py i]
  have a: "flood_inv d0 (visit_neighbour px py i s)"
    and b: "flood_measure d0 (visit_neighbour px py i s) \<le> flood_measure d0 s" by simp_all
  from Cons.IH[OF a] b show ?case by simp
qed

lemma flood_step_inv:
  assumes "flood_inv d0 s" and "queue s \<noteq> []"
  shows "flood_inv d0 (flood_step s) \<and> flood_measure d0 (flood_step s) < flood_measure d0 s"
proof -
  from assms(2) obtain p rest where q: "queue s = p # rest" by (cases "queue s") auto
  define s1 where "s1 = s\<lparr>queue := rest, pixels := pixels s @ [p]\<rparr>"
  have inv1: "flood_inv d0 s1"
    using assms(1) q by (auto simp: flood_inv_def s1_def)
  have m1: "flood_measure d0 s1 < flood_measure d0 s"
    using q by (simp add: flood_measure_def s1_def)
  have st: "flood_step s = fold (visit_neighbour (fst p) (snd p)) [0..<8] s1"
    by (simp add: flood_step_def q s1_def)
  from fold_visit_inv[OF inv1, of "fst p" "snd p" "[0..<8]"] m1 show ?thesis
    unfolding st by simp
qed

lemma floodFill_total:
  assumes "wf_grid (width d0) (height d0) (visited d0)"
    and "(sx, sy) \<in> foreground d0" and "(sx, sy) \<notin> seen d0"
  shows "\<exists>ps d'. floodFill sx sy d0 = Some (ps, d') \<and>
           flood_inv d0 \<lparr>queue = [], pixels = ps, det = d'\<rparr>"
proof -
  let ?b = "\<lambda>s. queue s \<noteq> []"
  have wf: "wf {(t, s). (flood_inv d0 s \<and> ?b s) \<and> t = flood_step s}"
    by (rule wf_subset[OF wf_measure[of "flood_measure d0"]]) (auto dest: flood_step_inv)
  have init: "flood_inv d0 (flood_init sx sy d0)"
    by (rule flood_init_inv[OF assms])
  have "\<exists>t. while_option ?b flood_step (flood_init sx sy d0) = Some t"
    by (rule wf_while_option_Some[OF wf]) (auto dest: flood_step_inv simp: init)
  then obtain t where t: "while_option ?b flood_step (flood_init sx sy d0) = Some t" ..
  have inv: "flood_inv d0 t"
    by (rule while_option_rule[where P = "flood_inv d0", OF _ t])
       (auto dest: flood_step_inv simp: init)
  have qe: "queue t = []" using while_option_stop[OF t] by simp
  have "t = \<lparr>queue = [], pixels = pixels t, det = det t\<rparr>" using qe by simp
  with inv have "flood_inv d0 \<lparr>queue = [], pixels = pixels t, det = det t\<rparr>" by simp
  moreover have "floodFill sx sy d0 = Some (pixels t, det t)"
    by (simp add: floodFill_def t)
  ultimately show ?thesis by blast
qed

subsection \<open>The raster scan\<close>

lemma visit_neighbour_cell_mono:
  "cell (visited (det s)) a b \<Longrightarrow> cell (visited (det (visit_neighbour px py i s))) a b"
  by (simp add: visit_neighbour_def Let_def cell_mark_mono)

lemma fold_visit_cell_mono:
  "cell (visited (det s)) a b \<Longrightarrow> cell (visited (det (fold (visit_neighbour px py) is s))) a b"
  by (induction "is" arbitrary: s) (simp_all add: visit_neighbour_cell_mono)

lemma flood_step_cell_mono:
  "cell (visited (det s)) a b \<Longrightarrow> cell (visited (det (flood_step s))) a b"
  by (cases "queue s") (simp_all add: flood_step_def fold_visit_cell_mono)

lemma floodFill_cell_mono:
  assumes "floodFill sx sy d = Some (ps, d')"
    and "cell (visited (det (flood_init sx sy d))) a b"
  shows "cell (visited d') a b"
proof -
  from assms(1) obtain t where
    t: "while_option (\<lambda>s. queue s \<noteq> []) flood_step (flood_init sx sy d) = Some t"
    and d': "d' = det t"
    by (auto simp: floodFill_def)
  have "cell (visited (det t)) a b"
    by (rule while_option_rule[where P = "\<lambda>s. cell (visited (det s)) a b", OF _ t])
       (simp_all add: flood_step_cell_mono assms(2))
  with d' show ?thesis by simp
qed

lemma floodFill_result:
  assumes "wf_grid (width d) (height d) (visited d)"
    and "(sx, sy) \<in> foreground d" and "(sx, sy) \<notin> seen d"
  shows "\<exists>ps d'. floodFill sx sy d = Some (ps, d') \<and>
           width d' = width d \<and> height d' = height d \<and>
           binaryMatrix d' = binaryMatrix d \<and> data d' = data d \<and>
           wf_grid (width d) (height d) (visited d') \<and>
           distinct ps \<and> set ps \<subseteq> foreground d \<and> set ps \<inter> seen d = {} \<and>
           seen d' = seen d \<union> set ps \<and> (sx, sy) \<in> set ps"
proof -
  from floodFill_total[OF assms] obtain ps d' where
    ff: "floodFill sx sy d = Some (ps, d')"
    and inv: "flood_inv d \<lparr>queue = [], pixels = ps, det = d'\<rparr>" by blast
  from inv have f: "width d' = width d" "height d' = height d"
    "binaryMatrix d' = binaryMatrix d" "data d' = data d"
    "wf_grid (width d) (height d) (visited d')"
    "distinct ps" "set ps \<subseteq> foreground d" "set ps \<inter> seen d = {}"
    "seen d' = seen d \<union> set ps"
    by (simp_all add: flood_inv_def)
  from assms(2) have b: "0 \<le> sx" "sx < int (width d)" "0 \<le> sy" "sy < int (height d)"
    by (auto simp: foreground_def marked_def)
  have "(sx, sy) \<in> marked (width d) (height d) (visited (det (flood_init sx sy d)))"
    using assms(1) b by (simp add: flood_init_def marked_mark)
  then have "cell (visited (det (flood_init sx sy d))) sx sy"
    by (simp add: marked_def)
  from floodFill_cell_mono[OF ff this] have "(sx, sy) \<in> seen d'"
    using b f(1,2) by (simp add: seen_def marked_def)
  with f(9) assms(3) have "(sx, sy) \<in> set ps" by simp
  with ff f show ?thesis by blast
qed

lemma analyzeShape_cong:
  "width d = width d' \<Longrightarrow> height d = height d' \<Longrightarrow> analyzeShape lg d ps = analyzeShape lg d' ps"
  by (simp add: analyzeShape_def boundsLoop_def)

lemma map_filter_snoc:
  "List.map_filter f (xs @ [x]) = List.map_filter f xs @ (case f x of None \<Rightarrow> [] | Some y \<Rightarrow> [y])"
  by (simp add: List.map_filter_def split: option.splits)

lemma scan_pixel_inv:
  assumes inv: "scan_inv lg d0 s" and px: "px < width d0" and py: "py < height d0"
  shows "\<exists>s'. scan_pixel lg py px s = Some s' \<and> scan_inv lg d0 s' \<and>
           seen (sdet s) \<subseteq> seen (sdet s') \<and>
           ((int px, int py) \<in> foreground d0 \<longrightarrow> (int px, int py) \<in> seen (sdet s'))"
proof -
  let ?d = "sdet s"
  from inv have f: "width ?d = width d0" "height ?d = height d0"
    "binaryMatrix ?d = binaryMatrix d0" "data ?d = data d0"
    "wf_grid (width d0) (height d0) (visited ?d)"
    "distinct (concat (regions s))" "set (concat (regions s)) = seen ?d"
    "seen ?d \<subseteq> foreground d0"
    "analysed s = filter (\<lambda>r. minShapeSize < length r) (regions s)"
    "acc_shapes s = List.map_filter (analyzeShape lg d0) (analysed s)"
    by (simp_all add: scan_inv_def)
  have fgeq: "foreground ?d = foreground d0" using f by (simp add: foreground_def)
  have fg: "(int px, int py) \<in> foreground d0 \<longleftrightarrow> binaryMatrix ?d ! py ! px"
    using px py f by (simp add: foreground_def marked_iff)
  have sn: "(int px, int py) \<in> seen ?d \<longleftrightarrow> visited ?d ! py ! px"
    using px py f by (simp add: seen_def marked_iff)
  show ?thesis
  proof (cases "binaryMatrix ?d ! py ! px \<and> \<not> visited ?d ! py ! px")
    case False
    then have "scan_pixel lg py px s = Some s" by (auto simp: scan_pixel_def)
    with inv False fg sn show ?thesis by auto
  next
    case True
    have "\<exists>ps d'. floodFill (int px) (int py) ?d = Some (ps, d') \<and>
           width d' = width ?d \<and> height d' = height ?d \<and>
           binaryMatrix d' = binaryMatrix ?d \<and> data d' = data ?d \<and>
           wf_grid (width ?d) (height ?d) (visited d') \<and>
           distinct ps \<and> set ps \<subseteq> foreground ?d \<and> set ps \<inter> seen ?d = {} \<and>
           seen d' = seen ?d \<union> set ps \<and> (int px, int py) \<in> set ps"
      using True f fg sn fgeq by (intro floodFill_result) simp_all
    then obtain ps d' where ff: "floodFill (int px) (int py) ?d = Some (ps, d')"
      and g: "width d' = width d0" "height d' = height d0"
        "binaryMatrix d' = binaryMatrix d0" "data d' = data d0"
        "wf_grid (width d0) (height d0) (visited d')"
        "distinct ps" "set ps \<subseteq> foreground d0" "set ps \<inter> seen ?d = {}"
        "seen d' = seen ?d \<union> set ps" "(int px, int py) \<in> set ps"
      using f fgeq by auto
    define s1 where "s1 = s\<lparr>sdet := d', regions := regions s @ [ps]\<rparr>"
    define s2 where "s2 = s1\<lparr>analysed := analysed s1 @ [ps]\<rparr>"
    have an: "analyzeShape lg d' ps = analyzeShape lg d0 ps"
      using g by (intro analyzeShape_cong) simp_all
    have core: "distinct (concat (regions s @ [ps]))"
      "set (concat (regions s @ [ps])) = seen d'" "seen d' \<subseteq> foreground d0"
      using f g by auto
    have inv1: "\<not> minShapeSize < length ps \<Longrightarrow> scan_inv lg d0 s1"
      using f g core by (simp add: scan_inv_def s1_def)
    have inv2: "minShapeSize < length ps \<Longrightarrow> analyzeShape lg d0 ps = None \<Longrightarrow> scan_inv lg d0 s2"
      using f g core by (simp add: scan_inv_def s1_def s2_def map_filter_snoc)
    have inv3: "minShapeSize < length ps \<Longrightarrow> analyzeShape lg d0 ps = Some sh \<Longrightarrow>
                scan_inv lg d0 (s2\<lparr>acc_shapes := acc_shapes s2 @ [sh]\<rparr>)" for sh
      using f g core by (simp add: scan_inv_def s1_def s2_def map_filter_snoc)
    have sp: "scan_pixel lg py px s =
        (if minShapeSize < length ps then
           (case analyzeShape lg d0 ps of
              Some sh \<Rightarrow> Some (s2\<lparr>acc_shapes := acc_shapes s2 @ [sh]\<rparr>)
            | None \<Rightarrow> Some s2)
         else Some s1)"
      using True by (simp add: scan_pixel_def ff Let_def s1_def s2_def an split: option.splits)
    have sd: "sdet s1 = d'" "sdet s2 = d'" by (simp_all add: s1_def s2_def)
    show ?thesis
    proof (cases "minShapeSize < length ps")
      case False
      with sp inv1 g sd show ?thesis by auto
    next
      case big: True
      show ?thesis
      proof (cases "analyzeShape lg d0 ps")
        case None
        with sp big inv2 g sd show ?thesis by auto
      next
        case (Some sh)
        with sp big inv3[OF big Some] g sd show ?thesis by auto
      qed
    qed
  qed
qed

lemma for_each_rule:
  assumes "I s"
    and step: "\<And>a s. a \<in> set as \<Longrightarrow> I s \<Longrightarrow> \<exists>s'. body a s = Some s' \<and> I s' \<and> R s s' \<and> Q a s'"
    and refl: "\<And>s. R s s"
    and trans: "\<And>s s' s''. R s s' \<Longrightarrow> R s' s'' \<Longrightarrow> R s s''"
    and keep: "\<And>a s s'. Q a s \<Longrightarrow> R s s' \<Longrightarrow> Q a s'"
  shows "\<exists>s'. for_each body as s = Some s' \<and> I s' \<and> R s s' \<and> (\<forall>a\<in>set as. Q a s')"
  using assms(1,2)
proof (induction as arbitrary: s)
  case Nil
  then show ?case by (simp add: refl)
next
  case (Cons a as)
  from Cons.prems(2)[of a s] Cons.prems(1) obtain s1 where
    s1: "body a s = Some s1" "I s1" "R s s1" "Q a s1" by auto
  have "\<exists>s'. for_each body as s1 = Some s' \<and> I s' \<and> R s1 s' \<and> (\<forall>a\<in>set as. Q a s')"
    by (rule Cons.IH[OF s1(2)]) (auto intro: Cons.prems(2))
  then obtain s' where s': "for_each body as s1 = Some s'" "I s'" "R s1 s'" "\<forall>a\<in>set as. Q a s'"
    by blast
  from s1 s' show ?case by (auto intro: trans keep)
qed

lemma scan_row_inv:
  assumes inv: "scan_inv lg d0 s" and py: "py < height d0"
  shows "\<exists>s'. scan_row lg py s = Some s' \<and> scan_inv lg d0 s' \<and>
           seen (sdet s) \<subseteq> seen (sdet s') \<and>
           (\<forall>px<width d0. (int px, int py) \<in> foreground d0 \<longrightarrow> (int px, int py) \<in> seen (sdet s'))"
proof -
  have w: "width (sdet s) = width d0" using inv by (simp add: scan_inv_def)
  have "\<exists>s'. for_each (scan_pixel lg py) [0..<width d0] s = Some s' \<and> scan_inv lg d0 s' \<and>
          seen (sdet s) \<subseteq> seen (sdet s') \<and>
          (\<forall>px\<in>set [0..<width d0].
              (int px, int py) \<in> foreground d0 \<longrightarrow> (int px, int py) \<in> seen (sdet s'))"
    by (rule for_each_rule[where I = "scan_inv lg d0"
          and R = "\<lambda>s s'. seen (sdet s) \<subseteq> seen (sdet s')"
          and Q = "\<lambda>px s'. (int px, int py) \<in> foreground d0 \<longrightarrow> (int px, int py) \<in> seen (sdet s')"])
       (use inv py in \<open>auto dest: scan_pixel_inv\<close>)
  then obtain s' where "for_each (scan_pixel lg py) [0..<width d0] s = Some s'" "scan_inv lg d0 s'"
    "seen (sdet s) \<subseteq> seen (sdet s')"
    "\<forall>px\<in>set [0..<width d0].
        (int px, int py) \<in> foreground d0 \<longrightarrow> (int px, int py) \<in> seen (sdet s')"
    by blast
  then show ?thesis by (auto simp: scan_row_def w)
qed

lemma scan_rows_inv:
  assumes inv: "scan_inv lg d0 s"
  shows "\<exists>s'. for_each (scan_row lg) [0..<height d0] s = Some s' \<and> scan_inv lg d0 s' \<and>
           (\<forall>py<height d0. \<forall>px<width d0.
              (int px, int py) \<in> foreground d0 \<longrightarrow> (int px, int py) \<in> seen (sdet s'))"
proof -
  have "\<exists>s'. for_each (scan_row lg) [0..<height d0] s = Some s' \<and> scan_inv lg d0 s' \<and>
          seen (sdet s) \<subseteq> seen (sdet s') \<and>
          (\<forall>py\<in>set [0..<height d0]. \<forall>px<width d0.
              (int px, int py) \<in> foreground d0 \<longrightarrow> (int px, int py) \<in> seen (sdet s'))"
    by (rule for_each_rule[where I = "scan_inv lg d0"
          and R = "\<lambda>s s'. seen (sdet s) \<subseteq> seen (sdet s')"
          and Q = "\<lambda>py s'. \<forall>px<width d0.
              (int px, int py) \<in> foreground d0 \<longrightarrow> (int px, int py) \<in> seen (sdet s')"])
       (use inv in \<open>auto dest: scan_row_inv\<close>)
  then show ?thesis by auto
qed

subsection \<open>Initialisation, the whole run, and a lower bound on the perimeter\<close>

lemma load_image_fields:
  "width (load_image img d) = img_width img"
  "height (load_image img d) = img_height img"
  "data (load_image img d) = Some (img_data img)"
  "binaryMatrix (load_image img d) =
     map (\<lambda>y. map (\<lambda>x. isForeground (img_data img) ((y * img_width img + x) * 4))
                 [0..<img_width img]) [0..<img_height img]"
  "visited (load_image img d) = map (\<lambda>y. replicate (img_width img) False) [0..<img_height img]"
  by (simp_all add: load_image_def initializeVisited_def initializeBinaryMatrix_def)

lemma load_image_indep: "load_image img d = load_image img d'"
  by (cases d, cases d') (simp add: load_image_def initializeVisited_def initializeBinaryMatrix_def)

lemma seen_load_image: "seen (load_image img d) = {}"
  by (auto simp: seen_def marked_def cell_def load_image_fields)

lemma wf_load_image:
  "wf_grid (width (load_image img d)) (height (load_image img d)) (visited (load_image img d))"
  by (simp add: wf_grid_def load_image_fields list_all_length)

lemma scan_inv_start:
  "scan_inv lg (load_image img d) \<lparr>sdet = load_image img d, acc_shapes = [], regions = [], analysed = []\<rparr>"
  by (simp add: scan_inv_def wf_load_image seen_load_image List.map_filter_def)

lemma detect_run_main:
  "\<exists>s. detect_run lg img d = Some s \<and> scan_inv lg (load_image img d) s \<and>
       seen (sdet s) = foreground (load_image img d)"
proof -
  let ?d0 = "load_image img d"
  from scan_rows_inv[OF scan_inv_start[of lg img d]] obtain s where
    run: "for_each (scan_row lg) [0..<height ?d0]
            \<lparr>sdet = ?d0, acc_shapes = [], regions = [], analysed = []\<rparr> = Some s"
    and inv: "scan_inv lg ?d0 s"
    and cov: "\<forall>py<height ?d0. \<forall>px<width ?d0.
               (int px, int py) \<in> foreground ?d0 \<longrightarrow> (int px, int py) \<in> seen (sdet s)"
    by blast
  have sub: "seen (sdet s) \<subseteq> foreground ?d0" using inv by (simp add: scan_inv_def)
  have "foreground ?d0 \<subseteq> seen (sdet s)"
  proof
    fix p assume p: "p \<in> foreground ?d0"
    obtain a b where ab: "p = (a, b)" by (cases p)
    from p ab have r: "0 \<le> a" "a < int (width ?d0)" "0 \<le> b" "b < int (height ?d0)"
      by (auto simp: foreground_def marked_def)
    then have "nat a < width ?d0" "nat b < height ?d0" by simp_all
    with cov have "(int (nat a), int (nat b)) \<in> foreground ?d0 \<longrightarrow>
                   (int (nat a), int (nat b)) \<in> seen (sdet s)" by blast
    with p ab r show "p \<in> seen (sdet s)" by simp
  qed
  with sub have "seen (sdet s) = foreground ?d0" by blast
  moreover have "detect_run lg img d = Some s" using run by (simp add: detect_run_def Let_def)
  ultimately show ?thesis using inv by blast
qed

lemma fold_fadd_foldl: "fold (\<lambda>i acc. fadd acc (g i)) xs a = foldl fadd a (map g xs)"
  by (induction xs arbitrary: a) simp_all

lemma perimeterLoop_foldl:
  "perimeterLoop ps =
     foldl fadd 0 (map (\<lambda>i. euclid (ps ! i) (ps ! ((i + 1) mod length ps))) [0..<length ps])"
  by (simp add: perimeterLoop_def Let_def euclid_def fold_fadd_foldl)

lemma int_sq_ge1:
  fixes k :: int
  assumes "k \<noteq> 0"
  shows "1 \<le> k * k"
proof -
  have "k * k \<noteq> 0" using assms by simp
  moreover have "0 \<le> k * k" by simp
  ultimately show ?thesis by linarith
qed

lemma fmul_sq_nonneg: "0 \<le> fmul (real_of_int k) (real_of_int k)"
  by (simp add: fmul_def rnd_nonneg)

lemma fmul_sq_ge1:
  assumes "k \<noteq> 0"
  shows "1 \<le> fmul (real_of_int k) (real_of_int k)"
proof -
  have "real_of_int 1 \<le> real_of_int (k * k)"
    using int_sq_ge1[OF assms] by (simp only: of_int_le_iff)
  then have "(1::real) \<le> real_of_int k * real_of_int k" by simp
  then have "rnd 1 \<le> rnd (real_of_int k * real_of_int k)" by (intro rnd_mono) simp_all
  then show ?thesis by (simp add: fmul_def rnd_one)
qed

lemma euclid_ge_1:
  assumes "p \<noteq> q"
  shows "1 \<le> euclid p q"
proof -
  let ?a = "fmul (real_of_int (fst q - fst p)) (real_of_int (fst q - fst p))"
  let ?b = "fmul (real_of_int (snd q - snd p)) (real_of_int (snd q - snd p))"
  have "fst q - fst p \<noteq> 0 \<or> snd q - snd p \<noteq> 0"
    using assms by (auto simp: prod_eq_iff)
  then have "1 \<le> ?a \<or> 1 \<le> ?b" using fmul_sq_ge1 by blast
  moreover have "0 \<le> ?a" "0 \<le> ?b" by (rule fmul_sq_nonneg)+
  ultimately have s: "1 \<le> ?a + ?b" by linarith
  then have "rnd 1 \<le> rnd (?a + ?b)" by (intro rnd_mono) simp_all
  then have "1 \<le> fadd ?a ?b" by (simp add: fadd_def rnd_one)
  then have "1 \<le> sqrt (fadd ?a ?b)" by simp
  then have "rnd 1 \<le> rnd (sqrt (fadd ?a ?b))" by (intro rnd_mono) simp_all
  then show ?thesis by (simp add: euclid_def fsqrt_def rnd_one)
qed

lemma foldl_fadd_ge:
  assumes "\<And>t. t \<in> set ts \<Longrightarrow> 1 \<le> t" and "real k \<le> a" and "k + length ts < 2 ^ 53"
  shows "real (k + length ts) \<le> foldl fadd a ts"
  using assms
proof (induction ts arbitrary: a k)
  case Nil
  then show ?case by simp
next
  case (Cons t ts)
  have t: "1 \<le> t" using Cons.prems(1) by simp
  have k: "Suc k < 2 ^ 53" using Cons.prems(3) by simp
  have "real (Suc k) \<le> a + t" using Cons.prems(2) t by simp
  then have "rnd (real (Suc k)) \<le> rnd (a + t)" by (intro rnd_mono) simp_all
  then have a': "real (Suc k) \<le> fadd a t" by (simp only: fadd_def rnd_nat[OF k])
  have "real (Suc k + length ts) \<le> foldl fadd (fadd a t) ts"
    by (rule Cons.IH[OF _ a']) (use Cons.prems in simp_all)
  then show ?case by simp
qed

lemma perimeter_ge_length:
  assumes "distinct ps" and "2 \<le> length ps" and "length ps < 2 ^ 53"
  shows "real (length ps) \<le> perimeterLoop ps"
proof -
  let ?n = "length ps"
  let ?g = "\<lambda>i. euclid (ps ! i) (ps ! ((i + 1) mod ?n))"
  have each: "1 \<le> t" if "t \<in> set (map ?g [0..<?n])" for t
  proof -
    from that obtain i where i: "i < ?n" and t: "t = ?g i" by auto
    have "0 < ?n" using i by (cases ps) simp_all
    then have nx: "(i + 1) mod ?n < ?n" by (rule mod_less_divisor)
    have "(i + 1) mod ?n \<noteq> i"
    proof (cases "i + 1 < ?n")
      case True then show ?thesis by simp
    next
      case False
      with i have "i + 1 = ?n" by simp
      then have "(i + 1) mod ?n = 0" by simp
      moreover have "i \<noteq> 0" using \<open>i + 1 = ?n\<close> assms(2) by simp
      ultimately show ?thesis by simp
    qed
    then have "ps ! i \<noteq> ps ! ((i + 1) mod ?n)"
      using assms(1) i nx by (simp add: nth_eq_iff_index_eq)
    then show ?thesis unfolding t by (rule euclid_ge_1)
  qed
  have "real (0 + length (map ?g [0..<?n])) \<le> foldl fadd 0 (map ?g [0..<?n])"
    by (rule foldl_fadd_ge) (use each assms(3) in simp_all)
  then show ?thesis by (simp add: perimeterLoop_foldl)
qed

lemma pi_double_bounds: "0 \<le> Math_PI" "Math_PI \<le> 4"
proof -
  show "0 \<le> Math_PI" by (simp add: Math_PI_def rnd_nonneg)
  have "rnd pi \<le> rnd 4" using pi_less_4 by (intro rnd_mono) simp_all
  then show "Math_PI \<le> 4" by (simp add: Math_PI_def rnd_four)
qed

lemma circularity_bound:
  assumes "distinct ps" and "20 \<le> length ps" and "length ps < 2 ^ 48"
  shows "circularityOf (length ps) (perimeterLoop ps) \<le> 13 / 16"
proof -
  let ?n = "real (length ps)"
  let ?p = "perimeterLoop ps"
  have n: "20 \<le> ?n" using assms(2) by simp
  have npos: "0 < ?n" using n by linarith
  have pn: "?n \<le> ?p" using assms by (intro perimeter_ge_length) simp_all
  have pos: "0 < ?p" using npos pn by linarith
  have x0: "0 \<le> 4 * Math_PI" and x16: "4 * Math_PI \<le> 16"
    using pi_double_bounds by simp_all
  have f0: "0 \<le> fmul 4 Math_PI" using x0 by (simp add: fmul_def rnd_nonneg)
  have "rnd (4 * Math_PI) \<le> rnd 16" using x0 x16 by (intro rnd_mono)
  then have f16: "fmul 4 Math_PI \<le> 16" by (simp add: fmul_def rnd_sixteen)
  have "rnd (real (16 * length ps)) = real (16 * length ps)"
    using assms(3) by (intro rnd_nat) simp
  then have e16: "rnd (16 * ?n) = 16 * ?n" by simp
  have "rnd (real (20 * length ps)) = real (20 * length ps)"
    using assms(3) by (intro rnd_nat) simp
  then have e20: "rnd (20 * ?n) = 20 * ?n" by simp
  have m0: "0 \<le> fmul 4 Math_PI * ?n" using f0 npos by simp
  have "fmul 4 Math_PI * ?n \<le> 16 * ?n" using f16 npos by simp
  then have "rnd (fmul 4 Math_PI * ?n) \<le> rnd (16 * ?n)"
    using m0 by (intro rnd_mono)
  then have num: "fmul (fmul 4 Math_PI) ?n \<le> 16 * ?n" by (simp add: fmul_def e16)
  have num0: "0 \<le> fmul (fmul 4 Math_PI) ?n" using m0 by (simp add: fmul_def rnd_nonneg)
  have "?n * ?n \<le> ?p * ?p" using pn npos by (intro mult_mono) simp_all
  moreover have "20 * ?n \<le> ?n * ?n" using n npos by simp
  ultimately have "20 * ?n \<le> ?p * ?p" by simp
  then have "rnd (20 * ?n) \<le> rnd (?p * ?p)" using npos by (intro rnd_mono) simp_all
  then have den: "20 * ?n \<le> fmul ?p ?p" by (simp add: fmul_def e20)
  have q: "fmul (fmul 4 Math_PI) ?n / fmul ?p ?p \<le> (16 * ?n) / (20 * ?n)"
    by (rule frac_le) (use num num0 den npos in simp_all)
  have q0: "0 \<le> fmul (fmul 4 Math_PI) ?n / fmul ?p ?p"
    using num0 den npos by simp
  have "(16 * ?n) / (20 * ?n) = 4 / 5" using npos by simp
  with q have "fmul (fmul 4 Math_PI) ?n / fmul ?p ?p \<le> 13 / 16" by simp
  with q0 have "rnd (fmul (fmul 4 Math_PI) ?n / fmul ?p ?p) \<le> 13 / 16"
    using rnd_upper[of 13 _ 4] by simp
  then show ?thesis using pos by (simp add: circularityOf_def fdiv_def)
qed

lemma classify_not_circle: "c \<le> 13 / 16 \<Longrightarrow> fst (classify c a e) \<noteq> Circle"
  using lit_bounds(10) by (simp add: classify_def)

subsection \<open>The values computed by analyzeShape\<close>

lemma analyzeShape_alt:
  "analyzeShape lg d ps =
     (if length ps < 10 then None
      else if finalConfidence lg d ps < lit 0.6 then None
      else Some \<lparr>shape_type = fst (classOf d ps), confidence = finalConfidence lg d ps,
                 boundingBox = boxOf d ps, center = centerOf d ps, area = length ps\<rparr>)"
proof -
  obtain minX minY maxX maxY sumX sumY where
    b: "boundsLoop d ps = (minX, minY, maxX, maxY, sumX, sumY)"
    by (rule prod_cases6)
  show ?thesis
    by (simp only: analyzeShape_def finalConfidence_def classOf_def extentOf_def
        aspectRatioOf_def boxOf_def centerOf_def b Let_def prod.case BoundingBox.simps)
qed

lemma Min_insert_min:
  fixes a x :: int
  assumes "finite S"
  shows "Min (insert (min a x) S) = min a (Min (insert x S))"
proof (cases "S = {}")
  case True
  then show ?thesis by simp
next
  case False
  with assms show ?thesis by (simp add: min.assoc)
qed

lemma Max_insert_max:
  fixes a x :: int
  assumes "finite S"
  shows "Max (insert (max a x) S) = max a (Max (insert x S))"
proof (cases "S = {}")
  case True
  then show ?thesis by simp
next
  case False
  with assms show ?thesis by (simp add: max.assoc)
qed

lemma bounds_fold:
  fixes ps :: "pixel list"
  shows "fold (\<lambda>(px, py) (minX, minY, maxX, maxY, sumX, sumY).
             (min minX px, min minY py, max maxX px, max maxY py, sumX + px, sumY + py))
       ps (a, b, c, e, sx, sy) =
     (Min (insert a (fst ` set ps)), Min (insert b (snd ` set ps)),
      Max (insert c (fst ` set ps)), Max (insert e (snd ` set ps)),
      sx + sum_list (map fst ps), sy + sum_list (map snd ps))"
proof (induction ps arbitrary: a b c e sx sy)
  case Nil
  then show ?case by simp
next
  case (Cons p ps)
  obtain px py where p: "p = (px, py)" by (cases p)
  show ?case
    by (simp add: p Cons.IH Min_insert_min Max_insert_max add.assoc)
qed

lemma boundsLoop_in_range:
  assumes "ps \<noteq> []" and "set ps \<subseteq> {0..<int (width d)} \<times> {0..<int (height d)}"
  shows "boundsLoop d ps =
     (Min (fst ` set ps), Min (snd ` set ps), Max (fst ` set ps), Max (snd ` set ps),
      sum_list (map fst ps), sum_list (map snd ps))"
proof -
  have ne: "fst ` set ps \<noteq> {}" "snd ` set ps \<noteq> {}" using assms(1) by simp_all
  have fin: "finite (fst ` set ps)" "finite (snd ` set ps)" by simp_all
  have xs: "\<forall>v\<in>fst ` set ps. 0 \<le> v \<and> v \<le> int (width d)" using assms(2) by force
  have ys: "\<forall>v\<in>snd ` set ps. 0 \<le> v \<and> v \<le> int (height d)" using assms(2) by force
  have lo: "Min (insert t X) = Min X" if "finite X" "X \<noteq> {}" "\<forall>v\<in>X. v \<le> t" for t :: int and X
  proof -
    have "Min X \<in> X" using that by (intro Min_in)
    with that have le: "Min X \<le> t" by blast
    from that(1,2) have "Min (insert t X) = min t (Min X)" by (rule Min_insert)
    also have "\<dots> = Min X" using le by (rule min_absorb2)
    finally show ?thesis .
  qed
  have hi: "Max (insert t X) = Max X" if "finite X" "X \<noteq> {}" "\<forall>v\<in>X. t \<le> v" for t :: int and X
  proof -
    have "Max X \<in> X" using that by (intro Max_in)
    with that have le: "t \<le> Max X" by blast
    from that(1,2) have "Max (insert t X) = max t (Max X)" by (rule Max_insert)
    also have "\<dots> = Max X" using le by (rule max_absorb2)
    finally show ?thesis .
  qed
  have "Min (insert (int (width d)) (fst ` set ps)) = Min (fst ` set ps)"
    using ne fin xs by (intro lo) auto
  moreover have "Min (insert (int (height d)) (snd ` set ps)) = Min (snd ` set ps)"
    using ne fin ys by (intro lo) auto
  moreover have "Max (insert 0 (fst ` set ps)) = Max (fst ` set ps)"
    using ne fin xs by (intro hi) auto
  moreover have "Max (insert 0 (snd ` set ps)) = Max (snd ` set ps)"
    using ne fin ys by (intro hi) auto
  ultimately show ?thesis by (simp add: boundsLoop_def bounds_fold)
qed

lemma perimeterLoop_spec: "perimeterLoop ps = spec_perimeter ps"
proof -
  let ?n = "length ps"
  have "map (\<lambda>i. euclid (ps ! i) (ps ! ((i + 1) mod ?n))) [0..<?n] = map2 euclid ps (rotate1 ps)"
  proof (rule nth_equalityI)
    show "length (map (\<lambda>i. euclid (ps ! i) (ps ! ((i + 1) mod ?n))) [0..<?n]) =
          length (map2 euclid ps (rotate1 ps))" by simp
  next
    fix i assume "i < length (map (\<lambda>i. euclid (ps ! i) (ps ! ((i + 1) mod ?n))) [0..<?n])"
    then have i: "i < ?n" by simp
    then show "map (\<lambda>i. euclid (ps ! i) (ps ! ((i + 1) mod ?n))) [0..<?n] ! i =
               map2 euclid ps (rotate1 ps) ! i"
      by (simp add: nth_rotate1)
  qed
  then show ?thesis by (simp only: perimeterLoop_foldl spec_perimeter_def)
qed

lemma set_map_filter:
  "set (List.map_filter f xs) = {y. \<exists>x\<in>set xs. f x = Some y}"
  by (induction xs) (auto simp: List.map_filter_simps split: option.splits)

lemma foreground_in_box:
  "foreground d \<subseteq> {0..<int (width d)} \<times> {0..<int (height d)}"
  by (simp add: foreground_def marked_subset_box)

lemma analysed_props:
  assumes "scan_inv lg d0 s" and "r \<in> set (analysed s)"
  shows "minShapeSize < length r" "distinct r" "set r \<subseteq> foreground d0" "r \<in> set (regions s)"
proof -
  from assms have r: "r \<in> set (regions s)" and big: "minShapeSize < length r"
    by (simp_all add: scan_inv_def)
  from assms(1) have dc: "distinct (concat (regions s))"
    and sub: "set (concat (regions s)) \<subseteq> foreground d0"
    by (simp_all add: scan_inv_def)
  from dc r show "distinct r" by (simp add: distinct_concat_iff)
  from sub r show "set r \<subseteq> foreground d0" by auto
  from r big show "minShapeSize < length r" "r \<in> set (regions s)" by simp_all
qed

subsection \<open>Evaluation on the concrete inputs\<close>

lemma load_square: "load_image square_image fresh_detector = square_loaded"
  by code_simp

lemma load_line: "load_image line_image fresh_detector = line_loaded"
  by code_simp

lemma flood_square:
  "floodFill 0 0 square_loaded =
     Some (square_region, square_loaded\<lparr>visited := replicate 10 (replicate 10 True)\<rparr>)"
  by code_simp

lemma flood_line:
  "floodFill 0 0 line_loaded = Some (line_region, line_loaded\<lparr>visited := [replicate 20 True]\<rparr>)"
  by code_simp

lemma square_region_facts:
  "length square_region = 100" "distinct square_region"
  "boundsLoop (square_loaded\<lparr>visited := replicate 10 (replicate 10 True)\<rparr>) square_region
     = (0, 0, 9, 9, 450, 450)"
  by code_simp+

lemma line_region_length: "length line_region = 20"
  by code_simp

lemma scan_pixel_skip: "visited (sdet s) ! py ! px \<Longrightarrow> scan_pixel lg py px s = Some s"
  by (simp add: scan_pixel_def)

lemma for_each_skip: "(\<And>a. a \<in> set as \<Longrightarrow> body a s = Some s) \<Longrightarrow> for_each body as s = Some s"
  by (induction as) simp_all

lemma scan_row_skip:
  assumes "\<And>px. px < width (sdet s) \<Longrightarrow> visited (sdet s) ! py ! px"
  shows "scan_row lg py s = Some s"
  unfolding scan_row_def by (rule for_each_skip) (simp add: scan_pixel_skip assms)

lemma clog10_one: "clog10 1 = 0"
  by (simp add: clog10_def rnd_zero)

lemma square_confidence_bounds:
  "39 / 64 \<le> fmul (lit 0.85) (lit 0.8)" "fmul (lit 0.85) (lit 0.8) \<le> 49 / 64"
proof -
  have lo: "(13 / 16) * (3 / 4) \<le> lit 0.85 * lit 0.8"
    using lit_bounds(8,10) by (intro mult_mono) simp_all
  have p: "0 \<le> lit 0.85" "0 \<le> lit 0.8" using lit_bounds(8,10) by simp_all
  have hi: "lit 0.85 * lit 0.8 \<le> (7 / 8) * (7 / 8)"
    using lit_bounds(9,11) p by (intro mult_mono) simp_all
  have nn: "0 \<le> lit 0.85 * lit 0.8" using p by simp
  from lo rnd_lower[of 39 6 "lit 0.85 * lit 0.8"]
  show "39 / 64 \<le> fmul (lit 0.85) (lit 0.8)" by (simp add: fmul_def)
  from hi nn rnd_upper[of 49 "lit 0.85 * lit 0.8" 6]
  show "fmul (lit 0.85) (lit 0.8) \<le> 49 / 64" by (simp add: fmul_def)
qed

lemma analyze_square: "analyzeShape clog10 square_done square_region = Some square_shape"
proof -
  have len: "length square_region = 100" and dist: "distinct square_region"
    and bnd: "boundsLoop square_done square_region = (0, 0, 9, 9, 450, 450)"
    by (simp_all add: square_region_facts square_done_def)
  have box: "boxOf square_done square_region =
      \<lparr>box_x = 0, box_y = 0, box_width = 10, box_height = 10\<rparr>"
    by (simp add: boxOf_def bnd)
  have r45: "rnd (9 / 2) = 9 / 2" using rnd_dyadic[of 9 1] by simp
  have cen: "centerOf square_done square_region = (4.5, 4.5)"
    by (simp add: centerOf_def bnd len fdiv_def r45)
  have asp: "aspectRatioOf square_done square_region = 1"
    by (simp add: aspectRatioOf_def box fdiv_def rnd_one)
  have ext: "extentOf square_done square_region = 1"
    by (simp add: extentOf_def box len fdiv_def rnd_one)
  have "circularityOf (length square_region) (perimeterLoop square_region) \<le> 13 / 16"
    by (rule circularity_bound[OF dist]) (simp_all add: len)
  then have h1: "\<not> lit 0.85 < circularityOf (length square_region) (perimeterLoop square_region)"
    using lit_bounds(10) by linarith
  have h2: "0 < lit 0.2" "lit 0.7 < 1" "lit 0.8 \<le> 1" "0 \<le> lit 0.85"
    using lit_bounds by linarith+
  have e1: "fmul (lit 0.85) 1 = lit 0.85" by (simp add: fmul_def lit_idem)
  have cls: "classOf square_done square_region = (Square, lit 0.85)"
    using h1 h2 e1 by (simp add: classOf_def classify_def asp ext fsub_def rnd_zero)
  have e2: "fadd 0 (lit 0.8) = lit 0.8" by (simp add: fadd_def lit_idem)
  have pen: "sizePenalty clog10 (length square_region) = lit 0.8"
    using h2(3) e2 by (simp add: sizePenalty_def len fdiv_def rnd_one clog10_one rnd_zero min_def)
  have f: "lit 0.1 \<le> fmul (lit 0.85) (lit 0.8)" "fmul (lit 0.85) (lit 0.8) \<le> lit 0.99"
    "\<not> fmul (lit 0.85) (lit 0.8) < lit 0.6"
    using square_confidence_bounds lit_bounds by linarith+
  have conf: "finalConfidence clog10 square_done square_region = fmul (lit 0.85) (lit 0.8)"
    using f cls pen by (simp add: finalConfidence_def min_def max_def)
  show ?thesis
    using f(3) conf cls cen by (simp add: analyzeShape_alt box len square_shape_def)
qed

lemma detect_square:
  "detect_run clog10 square_image fresh_detector =
     Some \<lparr>sdet = square_done, acc_shapes = [square_shape],
           regions = [square_region], analysed = [square_region]\<rparr>"
proof -
  let ?S0 = "\<lparr>sdet = square_loaded, acc_shapes = [], regions = [], analysed = []\<rparr>"
  let ?S1 = "\<lparr>sdet = square_done, acc_shapes = [square_shape],
           regions = [square_region], analysed = [square_region]\<rparr>"
  have p0: "scan_pixel clog10 0 0 ?S0 = Some ?S1"
    by (simp add: scan_pixel_def flood_square[unfolded square_done_def[symmetric]]
        analyze_square minShapeSize_def square_region_facts)
       (simp add: square_loaded_def)
  have vis: "visited square_done ! py ! px" if "py < 10" "px < 10" for py px
    using that by (simp add: square_done_def)
  have w: "width square_done = 10" "width square_loaded = 10" "height square_loaded = 10"
    by (simp_all add: square_done_def square_loaded_def)
  have rest: "for_each (scan_pixel clog10 0) [Suc 0..<10] ?S1 = Some ?S1"
    by (rule for_each_skip) (simp add: scan_pixel_skip vis)
  have row0: "scan_row clog10 0 ?S0 = Some ?S1"
    by (simp add: scan_row_def w upt_conv_Cons[of 0 10] p0 rest del: upt_Suc)
  have rows: "for_each (scan_row clog10) [Suc 0..<10] ?S1 = Some ?S1"
    by (rule for_each_skip, rule scan_row_skip) (simp add: vis w)
  show ?thesis
    by (simp add: detect_run_def load_square w upt_conv_Cons[of 0 10] row0 rows del: upt_Suc)
qed

lemma detect_line:
  "detect_run lg line_image fresh_detector =
     Some \<lparr>sdet = line_done, acc_shapes = [], regions = [line_region], analysed = []\<rparr>"
proof -
  let ?S0 = "\<lparr>sdet = line_loaded, acc_shapes = [], regions = [], analysed = []\<rparr>"
  let ?S1 = "\<lparr>sdet = line_done, acc_shapes = [], regions = [line_region], analysed = []\<rparr>"
  have p0: "scan_pixel lg 0 0 ?S0 = Some ?S1"
    by (simp add: scan_pixel_def flood_line[unfolded line_done_def[symmetric]]
        minShapeSize_def line_region_length)
       (simp add: line_loaded_def)
  have vis: "visited line_done ! 0 ! px" if "px < 20" for px
    using that by (simp add: line_done_def)
  have w: "width line_done = 20" "width line_loaded = 20" "height line_loaded = 1"
    by (simp_all add: line_done_def line_loaded_def)
  have rest: "for_each (scan_pixel lg 0) [Suc 0..<20] ?S1 = Some ?S1"
    by (rule for_each_skip) (simp add: scan_pixel_skip vis)
  have row0: "scan_row lg 0 ?S0 = Some ?S1"
    by (simp add: scan_row_def w upt_conv_Cons[of 0 20] p0 rest del: upt_Suc)
  show ?thesis
    by (simp add: detect_run_def load_line w row0)
qed

subsection \<open>The run on the 8 by 10 rectangle without its last pixel\<close>

text \<open>
  The region has 79 pixels in a box of 8 by 10: extent 79/80, aspect ratio the double 8/10,
  for which the square guard holds. With the correctly rounded \<open>log10\<close> the size penalty
  lies between 95/128 and 7/8, the confidence between 39/64 and 49/64, above the cutoff:
  the region is emitted as a square.
\<close>

lemma load_notch: "load_image notch_image fresh_detector = notch_loaded"
  by code_simp

lemma flood_notch:
  "floodFill 0 0 notch_loaded =
     Some (notch_region,
           notch_loaded\<lparr>visited := replicate 9 (replicate 8 True) @ [replicate 7 True @ [False]]\<rparr>)"
  by code_simp

lemma notch_region_facts:
  "length notch_region = 79" "distinct notch_region"
  "boundsLoop (notch_loaded\<lparr>visited := replicate 9 (replicate 8 True) @ [replicate 7 True @ [False]]\<rparr>)
     notch_region = (0, 0, 7, 9, 273, 351)"
  by code_simp+

lemma log10_lower: "- (7 / 64) \<le> log 10 (25 / 32)"
proof -
  define A where "A = (1::real) / 10 ^ 7"
  define B where "B = (25 / 32 :: real) ^ 64"
  have AB: "A \<le> B" by (simp add: A_def B_def power_divide)
  have A0: "0 < A" by (simp add: A_def)
  with AB have B0: "0 < B" by linarith
  have le: "log 10 A \<le> log 10 B" using AB A0 B0 by simp
  have gen: "log 10 (1 / 10 ^ n) = - real n" for n
    by (simp add: log_divide log_nat_power)
  have a: "log 10 A = - 7" unfolding A_def using gen[of 7] by simp
  have b: "log 10 B = 64 * log 10 (25 / 32)"
    unfolding B_def using log_nat_power[of "25 / 32" 10 64] by simp
  from le show ?thesis unfolding a b by simp
qed

lemma notch_penalty_bounds:
  "95 / 128 \<le> fadd (fdiv (clog10 (fdiv 79 100)) 2) (lit 0.8)"
  "fadd (fdiv (clog10 (fdiv 79 100)) 2) (lit 0.8) \<le> 7 / 8"
proof -
  define x where "x = fdiv 79 100"
  define L where "L = clog10 x"
  define H where "H = fdiv L 2"
  have x: "25 / 32 \<le> x" "x \<le> 1"
    using rnd_lower[of 25 5 "79 / 100"] rnd_upper[of 1 "79 / 100" 0] by (simp_all add: x_def fdiv_def)
  have "log 10 (25 / 32) \<le> log 10 x" using x(1) by simp
  with log10_lower have l1: "- (7 / 64) \<le> log 10 x" by linarith
  have l2: "log 10 x \<le> 0" using x by simp
  have m: "rnd (- (7 / 64)) = - (7 / 64)" using rnd_dyadic[of 7 6] by (simp add: rnd_minus)
  have L: "- (7 / 64) \<le> L" "L \<le> 0"
    using rnd_mono_all[OF l1] rnd_mono_all[OF l2] by (simp_all add: L_def clog10_def m rnd_zero)
  have m2: "rnd (- (7 / 128)) = - (7 / 128)" using rnd_dyadic[of 7 7] by (simp add: rnd_minus)
  have "- (7 / 128) \<le> L / 2" "L / 2 \<le> 0" using L by simp_all
  from rnd_mono_all[OF this(1)] rnd_mono_all[OF this(2)]
  have H: "- (7 / 128) \<le> H" "H \<le> 0" by (simp_all add: H_def fdiv_def m2 rnd_zero)
  have e: "51 / 64 \<le> lit 0.8" using rnd_lower[of 51 6 "0.8"] by (simp add: lit_def)
  have "95 / 128 \<le> H + lit 0.8" using H(1) e by linarith
  from rnd_mono_all[OF this] rnd_dyadic[of 95 7] have lo: "95 / 128 \<le> fadd H (lit 0.8)"
    by (simp add: fadd_def)
  have "H + lit 0.8 \<le> 7 / 8" using H(2) lit_bounds(9) by linarith
  from rnd_mono_all[OF this] rnd_dyadic[of 7 3] have hi: "fadd H (lit 0.8) \<le> 7 / 8"
    by (simp add: fadd_def)
  from lo show "95 / 128 \<le> fadd (fdiv (clog10 (fdiv 79 100)) 2) (lit 0.8)"
    by (simp only: H_def L_def x_def)
  from hi show "fadd (fdiv (clog10 (fdiv 79 100)) 2) (lit 0.8) \<le> 7 / 8"
    by (simp only: H_def L_def x_def)
qed

lemma notch_extent_bounds: "63 / 64 \<le> fdiv 79 80" "fdiv 79 80 \<le> 1"
  using rnd_lower[of 63 6 "79 / 80"] rnd_upper[of 1 "79 / 80" 0] by (simp_all add: fdiv_def)

lemma notch_confidence_bounds:
  "39 / 64 \<le> notch_confidence" "notch_confidence \<le> 49 / 64"
proof -
  define E where "E = fdiv 79 80"
  define P where "P = fadd (fdiv (clog10 (fdiv 79 100)) 2) (lit 0.8)"
  define C where "C = fmul (lit 0.85) E"
  have E: "63 / 64 \<le> E" "E \<le> 1" using notch_extent_bounds by (simp_all add: E_def)
  have P: "95 / 128 \<le> P" "P \<le> 7 / 8" using notch_penalty_bounds by (simp_all add: P_def)
  have a: "27 / 32 \<le> lit 0.85" using rnd_lower[of 27 5 "0.85"] by (simp add: lit_def)
  have a': "lit 0.85 \<le> 7 / 8" by (rule lit_bounds)
  have "(27 / 32) * (63 / 64) \<le> lit 0.85 * E" using a E(1) by (intro mult_mono) simp_all
  from rnd_mono_all[OF this] rnd_dyadic[of 1701 11] have C1: "1701 / 2048 \<le> C"
    by (simp add: C_def fmul_def)
  have "lit 0.85 * E \<le> (7 / 8) * 1" using a a' E by (intro mult_mono) simp_all
  from rnd_mono_all[OF this] rnd_dyadic[of 7 3] have C2: "C \<le> 7 / 8"
    by (simp add: C_def fmul_def)
  have "(1701 / 2048) * (95 / 128) \<le> C * P" using C1 P(1) by (intro mult_mono) simp_all
  from rnd_mono_all[OF this] rnd_dyadic[of 161595 18] have lo: "161595 / 262144 \<le> fmul C P"
    by (simp add: fmul_def)
  have "C * P \<le> (7 / 8) * (7 / 8)" using C1 C2 P by (intro mult_mono) simp_all
  from rnd_mono_all[OF this] rnd_dyadic[of 49 6] have hi: "fmul C P \<le> 49 / 64"
    by (simp add: fmul_def)
  have eq: "notch_confidence = fmul C P" by (simp only: notch_confidence_def C_def P_def E_def)
  from lo show "39 / 64 \<le> notch_confidence" unfolding eq by simp
  from hi show "notch_confidence \<le> 49 / 64" unfolding eq by simp
qed

lemma analyze_notch: "analyzeShape clog10 notch_done notch_region = Some notch_shape"
proof -
  have len: "length notch_region = 79" and dist: "distinct notch_region"
    and bnd: "boundsLoop notch_done notch_region = (0, 0, 7, 9, 273, 351)"
    by (simp_all add: notch_region_facts notch_done_def)
  have box: "boxOf notch_done notch_region =
      \<lparr>box_x = 0, box_y = 0, box_width = 8, box_height = 10\<rparr>"
    by (simp add: boxOf_def bnd)
  have cen: "centerOf notch_done notch_region = (fdiv 273 79, fdiv 351 79)"
    by (simp add: centerOf_def bnd len)
  have asp: "aspectRatioOf notch_done notch_region = fdiv 8 10"
    by (simp add: aspectRatioOf_def box)
  have ext: "extentOf notch_done notch_region = fdiv 79 80"
    by (simp add: extentOf_def box len)
  have "circularityOf (length notch_region) (perimeterLoop notch_region) \<le> 13 / 16"
    by (rule circularity_bound[OF dist]) (simp_all add: len)
  then have h1: "\<not> lit 0.85 < circularityOf (length notch_region) (perimeterLoop notch_region)"
    using lit_bounds(10) by linarith
  have h2: "lit 0.7 < fdiv 79 80" using notch_extent_bounds(1) lit_bounds(7) by linarith
  have cls: "classOf notch_done notch_region = (Square, fmul (lit 0.85) (fdiv 79 80))"
    using h1 h2 square_guard_four_fifths by (simp add: classOf_def classify_def asp ext)
  have pen: "sizePenalty clog10 (length notch_region) =
      fadd (fdiv (clog10 (fdiv 79 100)) 2) (lit 0.8)"
    using notch_penalty_bounds(2) by (simp add: sizePenalty_def len min_def)
  have f: "lit 0.1 \<le> notch_confidence" "notch_confidence \<le> lit 0.99"
    "\<not> notch_confidence < lit 0.6"
    using notch_confidence_bounds lit_bounds by linarith+
  have "finalConfidence clog10 notch_done notch_region =
      max (lit 0.1) (min (lit 0.99) notch_confidence)"
    unfolding finalConfidence_def cls snd_conv pen notch_confidence_def by (rule refl)
  then have conf: "finalConfidence clog10 notch_done notch_region = notch_confidence"
    using f by (simp add: min_def max_def)
  show ?thesis
    using f(3) conf cls cen by (simp add: analyzeShape_alt box len notch_shape_def)
qed

lemma scan_pixel_background:
  "\<not> binaryMatrix (sdet s) ! py ! px \<Longrightarrow> scan_pixel lg py px s = Some s"
  by (simp add: scan_pixel_def)

lemma detect_notch:
  "detect_run clog10 notch_image fresh_detector =
     Some \<lparr>sdet = notch_done, acc_shapes = [notch_shape],
           regions = [notch_region], analysed = [notch_region]\<rparr>"
proof -
  let ?S0 = "\<lparr>sdet = notch_loaded, acc_shapes = [], regions = [], analysed = []\<rparr>"
  let ?S1 = "\<lparr>sdet = notch_done, acc_shapes = [notch_shape],
           regions = [notch_region], analysed = [notch_region]\<rparr>"
  have p0: "scan_pixel clog10 0 0 ?S0 = Some ?S1"
    by (simp add: scan_pixel_def flood_notch[unfolded notch_done_def[symmetric]]
        analyze_notch minShapeSize_def notch_region_facts)
       (simp add: notch_loaded_def nth_append)
  have vis: "visited notch_done ! py ! px \<or> \<not> binaryMatrix notch_done ! py ! px"
    if "py < 10" "px < 8" for py px
  proof (cases "py < 9")
    case True
    with that show ?thesis by (simp add: notch_done_def nth_append)
  next
    case False
    with that have "py = 9" by simp
    with that show ?thesis
      by (cases "px < 7") (simp_all add: notch_done_def notch_loaded_def nth_append)
  qed
  have skip: "scan_pixel clog10 py px ?S1 = Some ?S1" if "py < 10" "px < 8" for py px
    using vis[OF that] scan_pixel_skip[of ?S1 py px clog10]
      scan_pixel_background[of ?S1 py px clog10] by auto
  have w: "width notch_done = 8" "width notch_loaded = 8" "height notch_loaded = 10"
    by (simp_all add: notch_done_def notch_loaded_def)
  have rest: "for_each (scan_pixel clog10 0) [Suc 0..<8] ?S1 = Some ?S1"
    by (rule for_each_skip) (simp add: skip)
  have row0: "scan_row clog10 0 ?S0 = Some ?S1"
    by (simp add: scan_row_def w upt_conv_Cons[of 0 8] p0 rest del: upt_Suc)
  have rows: "for_each (scan_row clog10) [Suc 0..<10] ?S1 = Some ?S1"
  proof (rule for_each_skip)
    fix py assume "py \<in> set [Suc 0..<10]"
    then have "py < 10" by simp
    then show "scan_row clog10 py ?S1 = Some ?S1"
      unfolding scan_row_def by (intro for_each_skip) (simp add: skip w)
  qed
  show ?thesis
    by (simp add: detect_run_def load_notch w upt_conv_Cons[of 0 10] row0 rows del: upt_Suc)
qed

subsection \<open>Facts about a run\<close>

lemma run_props:
  assumes "detect_run lg img d = Some s"
  shows "scan_inv lg (load_image img d) s" "seen (sdet s) = foreground (load_image img d)"
  using detect_run_main[of lg img d] assms by auto

lemma run_analyze:
  assumes "detect_run lg img d = Some s"
  shows "analyzeShape lg (sdet s) = analyzeShape lg (load_image img d)"
proof
  fix ps
  have "scan_inv lg (load_image img d) s" using assms by (rule run_props)
  then show "analyzeShape lg (sdet s) ps = analyzeShape lg (load_image img d) ps"
    by (intro analyzeShape_cong) (simp_all add: scan_inv_def)
qed

lemma run_features:
  assumes "detect_run lg img d = Some s"
  shows "boxOf (sdet s) = boxOf (load_image img d)" "centerOf (sdet s) = centerOf (load_image img d)"
    "classOf (sdet s) = classOf (load_image img d)"
    "finalConfidence lg (sdet s) = finalConfidence lg (load_image img d)"
proof -
  have "scan_inv lg (load_image img d) s" using assms by (rule run_props)
  then have "boundsLoop (sdet s) = boundsLoop (load_image img d)"
    by (intro ext) (simp add: boundsLoop_def scan_inv_def)
  then show "boxOf (sdet s) = boxOf (load_image img d)" "centerOf (sdet s) = centerOf (load_image img d)"
    "classOf (sdet s) = classOf (load_image img d)"
    "finalConfidence lg (sdet s) = finalConfidence lg (load_image img d)"
    by (simp_all add: fun_eq_iff boxOf_def centerOf_def classOf_def finalConfidence_def
        aspectRatioOf_def extentOf_def)
qed

lemma run_shapes:
  assumes "detect_run lg img d = Some s"
  shows "set (acc_shapes s) = {sh. \<exists>r\<in>set (analysed s). analyzeShape lg (sdet s) r = Some sh}"
proof -
  have "scan_inv lg (load_image img d) s" using assms by (rule run_props)
  then have "acc_shapes s = List.map_filter (analyzeShape lg (load_image img d)) (analysed s)"
    by (simp add: scan_inv_def)
  then show ?thesis by (simp add: set_map_filter run_analyze[OF assms])
qed

lemma detectShapes_run:
  "detectShapes lg img d = Some (res, d') \<longleftrightarrow>
     (\<exists>s. detect_run lg img d = Some s \<and> d' = sdet s \<and>
          res = \<lparr>shapes = acc_shapes s,
                 imageStats = \<lparr>stats_width = width (sdet s), stats_height = height (sdet s)\<rparr>\<rparr>)"
  by (auto simp: detectShapes_def)

lemma final_confidence_le: "finalConfidence lg d ps \<le> lit 0.99"
proof -
  have "lit 0.1 \<le> lit 0.99" using lit_bounds(1,12) by linarith
  then show ?thesis by (simp add: finalConfidence_def)
qed

lemma card_foreground_le: "card (foreground d) \<le> width d * height d"
proof -
  have "card (foreground d) \<le> card ({0..<int (width d)} \<times> {0..<int (height d)})"
    by (rule card_mono) (simp_all add: foreground_def marked_subset_box)
  then show ?thesis by (simp add: card_cartesian_product)
qed

lemma region_length_le:
  assumes "scan_inv lg d0 s" and "r \<in> set (regions s)"
  shows "length r \<le> width d0 * height d0"
proof -
  from assms(1) have dc: "distinct (concat (regions s))"
    and sub: "set (concat (regions s)) \<subseteq> foreground d0"
    by (simp_all add: scan_inv_def)
  from dc assms(2) have "distinct r" by (simp add: distinct_concat_iff)
  then have "length r = card (set r)" by (simp add: distinct_card)
  also have "\<dots> \<le> card (foreground d0)"
    by (rule card_mono) (use sub assms(2) finite_foreground in auto)
  also have "\<dots> \<le> width d0 * height d0" by (rule card_foreground_le)
  finally show ?thesis .
qed

lemma no_circle_analysed:
  assumes "detect_run lg img d = Some s" and "r \<in> set (analysed s)"
    and "img_width img * img_height img < 2 ^ 48"
  shows "fst (classOf (sdet s) r) \<noteq> Circle"
proof -
  have inv: "scan_inv lg (load_image img d) s" using assms(1) by (rule run_props)
  from analysed_props[OF inv assms(2)] have d: "distinct r" and l: "20 \<le> length r"
    and m: "r \<in> set (regions s)"
    by (simp_all add: minShapeSize_def)
  from region_length_le[OF inv m] assms(3) have "length r < 2 ^ 48"
    by (simp add: load_image_fields)
  with d l have "circularityOf (length r) (perimeterLoop r) \<le> 13 / 16"
    by (intro circularity_bound)
  then show ?thesis by (simp add: classOf_def classify_not_circle)
qed

lemma no_circle_emitted:
  assumes "detect_run lg img d = Some s" and "img_width img * img_height img < 2 ^ 48"
  shows "Circle \<notin> shape_type ` set (acc_shapes s)"
proof
  assume "Circle \<in> shape_type ` set (acc_shapes s)"
  then obtain sh where sh: "sh \<in> set (acc_shapes s)" "shape_type sh = Circle" by auto
  from sh(1) obtain r where r: "r \<in> set (analysed s)" "analyzeShape lg (sdet s) r = Some sh"
    by (auto simp: run_shapes[OF assms(1)])
  from r(2) have "shape_type sh = fst (classOf (sdet s) r)"
    by (auto simp: analyzeShape_alt split: if_splits)
  with sh(2) no_circle_analysed[OF assms(1) r(1) assms(2)] show False by simp
qed

lemma distinct_concat_disjoint:
  "distinct (concat xss) \<Longrightarrow> i < j \<Longrightarrow> j < length xss \<Longrightarrow> set (xss ! i) \<inter> set (xss ! j) = {}"
proof (induction xss arbitrary: i j)
  case Nil
  then show ?case by simp
next
  case (Cons xs xss)
  from Cons.prems(2) obtain j' where j: "j = Suc j'" by (cases j) auto
  show ?case
  proof (cases i)
    case 0
    have "xss ! j' \<in> set xss" using Cons.prems(3) j by simp
    then have "set (xss ! j') \<subseteq> set (concat xss)" by auto
    with Cons.prems(1) 0 j show ?thesis by auto
  next
    case (Suc i')
    with Cons j show ?thesis by simp
  qed
qed

lemma in_exactly_one:
  assumes "distinct (concat xss)" and "p \<in> set (concat xss)"
  shows "\<exists>!i. i < length xss \<and> p \<in> set (xss ! i)"
proof -
  from assms(2) obtain xs where "xs \<in> set xss" "p \<in> set xs" by auto
  then obtain i where i: "i < length xss" "p \<in> set (xss ! i)"
    by (metis in_set_conv_nth)
  have "j = i" if "j < length xss" "p \<in> set (xss ! j)" for j
  proof (rule ccontr)
    assume "j \<noteq> i"
    then consider "i < j" | "j < i" by linarith
    then show False
    proof cases
      case 1
      from distinct_concat_disjoint[OF assms(1) 1 that(1)] i(2) that(2) show False by auto
    next
      case 2
      from distinct_concat_disjoint[OF assms(1) 2 i(1)] i(2) that(2) show False by auto
    qed
  qed
  with i show ?thesis by blast
qed

lemma scan_pixel_cell_mono:
  assumes "scan_pixel lg py px s = Some s'" and "cell (visited (sdet s)) a b"
  shows "cell (visited (sdet s')) a b"
proof (cases "binaryMatrix (sdet s) ! py ! px \<and> \<not> visited (sdet s) ! py ! px")
  case False
  with assms show ?thesis by (auto simp: scan_pixel_def)
next
  case True
  with assms(1) obtain ps d' where ff: "floodFill (int px) (int py) (sdet s) = Some (ps, d')"
    and d': "sdet s' = d'"
    by (auto simp: scan_pixel_def Let_def split: option.splits if_splits)
  have "cell (visited (det (flood_init (int px) (int py) (sdet s)))) a b"
    using assms(2) by (simp add: flood_init_def cell_mark_mono)
  from floodFill_cell_mono[OF ff this] d' show ?thesis by simp
qed

lemma cell_index: "px < w \<Longrightarrow> py < h \<Longrightarrow> py * w + px < w * (h::nat)"
proof -
  assume a: "px < w" "py < h"
  then have "py * w + px < py * w + w" by simp
  also have "\<dots> = Suc py * w" by simp
  also have "\<dots> \<le> h * w" using a(2) by (intro mult_le_mono1) simp
  finally show ?thesis by (simp add: mult.commute)
qed


subsection \<open>The claims\<close>

text \<open>
  Claim C1. On the 200 by 200 white canvas with a filled black disc of radius 50 centred at
  (100, 100), the run ends and no emitted shape has type \<open>circle\<close>, whatever \<open>Math.log10\<close>
  returns: the perimeter estimate walks every pixel of the region, so the circularity of a
  region of more than 20 pixels, computed in doubles, stays below the 0.85 threshold. The
  claimed single \<open>circle\<close> shape is therefore never produced.
\<close>

theorem disc_not_circle:
  "\<exists>res d'. detectShapes lg disc_image d = Some (res, d') \<and>
             Circle \<notin> shape_type ` set (shapes res)"
proof -
  from detect_run_main[of lg disc_image d] obtain s where
    s: "detect_run lg disc_image d = Some s" by blast
  have "img_width disc_image * img_height disc_image < 2 ^ 48"
    by (simp add: disc_image_def)
  from no_circle_emitted[OF s this] s show ?thesis
    by (simp add: detectShapes_def)
qed

text \<open>
  Claim C2. The type and the confidence that \<open>analyzeShape\<close> returns are those of the ordered
  chain applied to the circularity, aspect ratio and extent it computed, the confidence
  then multiplied by the size penalty and clamped. In the chain the first match wins:
  circularity exactly 0.85 is not a circle; extent exactly 0.6 with circularity at most 0.85
  is a pentagon with confidence 0.6 (the square branch needs extent above 0.7, so it cannot
  fire); a circularity above 0.85 gives a circle whatever the other features are; and the
  square, rectangle and triangle branches fire in that order. All numbers are doubles.
\<close>

theorem classify_chain:
  "map_option (\<lambda>sh. (shape_type sh, confidence sh)) (analyzeShape lg d ps) =
     (let tc = classify (circularityOf (length ps) (perimeterLoop ps))
                 (aspectRatioOf d ps) (extentOf d ps);
          conf = max (lit 0.1) (min (lit 0.99) (fmul (snd tc) (sizePenalty lg (length ps))))
      in if length ps < 10 \<or> conf < lit 0.6 then None else Some (fst tc, conf)) \<and>
   fst (classify (lit 0.85) a e) \<noteq> Circle \<and>
   (c \<le> lit 0.85 \<longrightarrow> classify c a (lit 0.6) = (Pentagon, lit 0.6)) \<and>
   (c > lit 0.85 \<longrightarrow> classify c a e = (Circle, min (lit 0.99) c)) \<and>
   (c \<le> lit 0.85 \<and> \<bar>fsub a 1\<bar> < lit 0.2 \<and> e > lit 0.7 \<longrightarrow>
      classify c a e = (Square, fmul (lit 0.85) e)) \<and>
   (c \<le> lit 0.85 \<and> \<not> (\<bar>fsub a 1\<bar> < lit 0.2 \<and> e > lit 0.7) \<and> e > lit 0.6 \<longrightarrow>
      classify c a e = (Rectangle, fmul (lit 0.8) e)) \<and>
   (c \<le> lit 0.85 \<and> e < lit 0.6 \<longrightarrow> classify c a e = (Triangle, fmul (lit 0.7) (fsub 1 e)))"
proof -
  have o: "lit 0.6 \<le> lit 0.7" using lit_bounds(5,6) by linarith
  have tie: "map_option (\<lambda>sh. (shape_type sh, confidence sh)) (analyzeShape lg d ps) =
     (let tc = classify (circularityOf (length ps) (perimeterLoop ps))
                 (aspectRatioOf d ps) (extentOf d ps);
          conf = max (lit 0.1) (min (lit 0.99) (fmul (snd tc) (sizePenalty lg (length ps))))
      in if length ps < 10 \<or> conf < lit 0.6 then None else Some (fst tc, conf))"
    unfolding Let_def analyzeShape_alt finalConfidence_def classOf_def by auto
  have rest: "fst (classify (lit 0.85) a e) \<noteq> Circle \<and>
   (c \<le> lit 0.85 \<longrightarrow> classify c a (lit 0.6) = (Pentagon, lit 0.6)) \<and>
   (c > lit 0.85 \<longrightarrow> classify c a e = (Circle, min (lit 0.99) c)) \<and>
   (c \<le> lit 0.85 \<and> \<bar>fsub a 1\<bar> < lit 0.2 \<and> e > lit 0.7 \<longrightarrow>
      classify c a e = (Square, fmul (lit 0.85) e)) \<and>
   (c \<le> lit 0.85 \<and> \<not> (\<bar>fsub a 1\<bar> < lit 0.2 \<and> e > lit 0.7) \<and> e > lit 0.6 \<longrightarrow>
      classify c a e = (Rectangle, fmul (lit 0.8) e)) \<and>
   (c \<le> lit 0.85 \<and> e < lit 0.6 \<longrightarrow> classify c a e = (Triangle, fmul (lit 0.7) (fsub 1 e)))"
    using o by (auto simp: classify_def)
  from tie rest show ?thesis by (rule conjI)
qed

text \<open>
  The chain at one feature vector per branch, at the aspect ratio 8/10 with extent 79/80,
  where the doubles take the square branch, and on the 10 by 10 black square, which
  \<open>analyzeShape\<close> returns as a square.
\<close>

theorem classify_chain_witness:
  "classify 0 1 (lit 0.6) = (Pentagon, lit 0.6) \<and>
   classify 1 1 1 = (Circle, lit 0.99) \<and>
   classify 0 1 1 = (Square, lit 0.85) \<and>
   classify 0 2 1 = (Rectangle, lit 0.8) \<and>
   classify 0 1 (1 / 2) = (Triangle, fmul (lit 0.7) (1 / 2)) \<and>
   classify 0 (fdiv 8 10) (fdiv 79 80) = (Square, fmul (lit 0.85) (fdiv 79 80)) \<and>
   map_option (\<lambda>sh. (shape_type sh, confidence sh))
     (analyzeShape clog10 square_done square_region) = Some (Square, fmul (lit 0.85) (lit 0.8))"
proof -
  have h: "0 \<le> lit 0.85" "lit 0.85 < 1" "0 < lit 0.2" "lit 0.2 < 1" "lit 0.7 < 1"
    "lit 0.6 < 1" "1 / 2 < lit 0.6" "lit 0.99 \<le> 1"
    using lit_bounds by linarith+
  have e: "fsub 1 1 = 0" "fsub 2 1 = 1" "fsub 1 (1 / 2) = 1 / 2"
    "fmul (lit 0.85) 1 = lit 0.85" "fmul (lit 0.8) 1 = lit 0.8"
    using rnd_dyadic[of 1 1] by (simp_all add: fsub_def fmul_def rnd_zero rnd_one lit_idem)
  have a: "classify 0 1 (lit 0.6) = (Pentagon, lit 0.6)"
    using classify_chain[where c = 0 and a = 1] h(1) by simp
  have b: "classify 1 1 1 = (Circle, lit 0.99)"
    using classify_chain[where c = 1 and a = 1 and e = 1] h(2,8) by (simp add: min_def)
  have c: "classify 0 1 1 = (Square, lit 0.85)"
    using classify_chain[where c = 0 and a = 1 and e = 1] h(1,3,5) e(1,4) by simp
  have d: "classify 0 2 1 = (Rectangle, lit 0.8)"
    using classify_chain[where c = 0 and a = 2 and e = 1] h(1,4,6) e(2,5) by simp
  have f: "classify 0 1 (1 / 2) = (Triangle, fmul (lit 0.7) (1 / 2))"
    using classify_chain[where c = 0 and a = 1 and e = "1 / 2"] h(1,7) e(3) by simp
  have n: "lit 0.7 < fdiv 79 80" using notch_extent_bounds(1) lit_bounds(7) by linarith
  have k: "classify 0 (fdiv 8 10) (fdiv 79 80) = (Square, fmul (lit 0.85) (fdiv 79 80))"
    using classify_chain[where c = 0 and a = "fdiv 8 10" and e = "fdiv 79 80"] h(1) n
      square_guard_four_fifths by simp
  have g: "map_option (\<lambda>sh. (shape_type sh, confidence sh))
     (analyzeShape clog10 square_done square_region) = Some (Square, fmul (lit 0.85) (lit 0.8))"
    by (simp add: analyze_square square_shape_def)
  from a b c d f k g show ?thesis by simp
qed

text \<open>
  Claim C3. Every shape returned by \<open>detectShapes\<close> has a confidence between 0.6 and 0.99
  (the doubles nearest to them); \<open>analyzeShape\<close> multiplies the classifier's confidence by the
  size penalty \<open>min(1, log10(area/100)/2 + 0.8)\<close>, clamps the product to [0.1, 0.99], and
  returns nothing when the clamped value is below 0.6.
\<close>

theorem confidence_bounds:
  "(detectShapes lg img d = Some (res, d') \<and> sh \<in> set (shapes res) \<longrightarrow>
      lit 0.6 \<le> confidence sh \<and> confidence sh \<le> lit 0.99) \<and>
   map_option confidence (analyzeShape lg d ps) =
     (let conf = max (lit 0.1) (min (lit 0.99) (fmul (snd (classOf d ps))
                   (min 1 (fadd (fdiv (lg (fdiv (real (length ps)) 100)) 2) (lit 0.8)))))
      in if length ps < 10 \<or> conf < lit 0.6 then None else Some conf)"
proof (intro conjI impI)
  assume a: "detectShapes lg img d = Some (res, d') \<and> sh \<in> set (shapes res)"
  then obtain s where s: "detect_run lg img d = Some s" "sh \<in> set (acc_shapes s)"
    by (auto simp: detectShapes_run)
  then obtain r where "analyzeShape lg (sdet s) r = Some sh"
    by (auto simp: run_shapes[OF s(1)])
  then have "confidence sh = finalConfidence lg (sdet s) r"
    "\<not> finalConfidence lg (sdet s) r < lit 0.6"
    by (auto simp: analyzeShape_alt split: if_splits)
  then show "lit 0.6 \<le> confidence sh" "confidence sh \<le> lit 0.99"
    using final_confidence_le[of lg "sdet s" r] by simp_all
next
  show "map_option confidence (analyzeShape lg d ps) =
     (let conf = max (lit 0.1) (min (lit 0.99) (fmul (snd (classOf d ps))
                   (min 1 (fadd (fdiv (lg (fdiv (real (length ps)) 100)) 2) (lit 0.8)))))
      in if length ps < 10 \<or> conf < lit 0.6 then None else Some conf)"
    unfolding Let_def analyzeShape_alt finalConfidence_def sizePenalty_def by auto
qed

lemma detectShapes_square:
  "detectShapes clog10 square_image fresh_detector =
     Some (\<lparr>shapes = [square_shape], imageStats = \<lparr>stats_width = 10, stats_height = 10\<rparr>\<rparr>,
           square_done)"
  by (simp add: detectShapes_def detect_square) (simp add: square_done_def square_loaded_def)

lemma detectShapes_notch:
  "detectShapes clog10 notch_image fresh_detector =
     Some (\<lparr>shapes = [notch_shape], imageStats = \<lparr>stats_width = 8, stats_height = 10\<rparr>\<rparr>,
           notch_done)"
  by (simp add: detectShapes_def detect_notch) (simp add: notch_done_def notch_loaded_def)

text \<open>
  The 10 by 10 black square is emitted; its confidence is the double product of 0.85 and
  0.8. The 8 by 10 rectangle without its last pixel is emitted too, as a square, and its
  confidence is the double product of 0.85, 79/80 and the size penalty.
\<close>

theorem confidence_bounds_witness:
  "detectShapes clog10 square_image fresh_detector =
     Some (\<lparr>shapes = [square_shape], imageStats = \<lparr>stats_width = 10, stats_height = 10\<rparr>\<rparr>,
           square_done) \<and>
   square_shape \<in> set [square_shape] \<and>
   confidence square_shape = fmul (lit 0.85) (lit 0.8) \<and>
   lit 0.6 \<le> confidence square_shape \<and> confidence square_shape \<le> lit 0.99 \<and>
   detectShapes clog10 notch_image fresh_detector =
     Some (\<lparr>shapes = [notch_shape], imageStats = \<lparr>stats_width = 8, stats_height = 10\<rparr>\<rparr>,
           notch_done) \<and>
   shape_type notch_shape = Square \<and>
   confidence notch_shape =
     fmul (fmul (lit 0.85) (fdiv 79 80)) (fadd (fdiv (clog10 (fdiv 79 100)) 2) (lit 0.8)) \<and>
   lit 0.6 \<le> confidence notch_shape \<and> confidence notch_shape \<le> lit 0.99"
proof -
  have a: "lit 0.6 \<le> confidence square_shape \<and> confidence square_shape \<le> lit 0.99"
    using confidence_bounds[of clog10 square_image fresh_detector
      "\<lparr>shapes = [square_shape], imageStats = \<lparr>stats_width = 10, stats_height = 10\<rparr>\<rparr>"
      square_done square_shape]
    by (simp add: detectShapes_square)
  have b: "lit 0.6 \<le> confidence notch_shape \<and> confidence notch_shape \<le> lit 0.99"
    using confidence_bounds[of clog10 notch_image fresh_detector
      "\<lparr>shapes = [notch_shape], imageStats = \<lparr>stats_width = 8, stats_height = 10\<rparr>\<rparr>"
      notch_done notch_shape]
    by (simp add: detectShapes_notch)
  have c: "confidence square_shape = fmul (lit 0.85) (lit 0.8)" "shape_type notch_shape = Square"
    "confidence notch_shape =
       fmul (fmul (lit 0.85) (fdiv 79 80)) (fadd (fdiv (clog10 (fdiv 79 100)) 2) (lit 0.8))"
    by (simp_all add: square_shape_def notch_shape_def notch_confidence_def)
  from a b c detectShapes_square detectShapes_notch show ?thesis by simp
qed

text \<open>
  Claim C4. A region of exactly 20 pixels (a 20 by 1 black line) is extracted but not
  handed to \<open>analyzeShape\<close>: the guard is \<open>shapePixels.length > minShapeSize\<close>, so the
  smallest region that is analysed has 21 pixels, not 20.
\<close>

theorem line_region_not_analysed:
  "map_option (\<lambda>s. (map length (regions s), analysed s, acc_shapes s))
     (detect_run lg line_image fresh_detector) = Some ([20], [], [])"
  by (simp add: detect_line line_region_length)

text \<open>
  Claim C5. For a buffer of the declared size, the pixel at \<open>(px, py)\<close> is foreground
  exactly when its red, green or blue byte is below 240; two buffers that differ only in
  alpha bytes give the same binary matrix.
\<close>

theorem binarizer_threshold:
  "(length (img_data img) = 4 * img_width img * img_height img \<and>
    px < img_width img \<and> py < img_height img \<longrightarrow>
      (binaryMatrix (load_image img d) ! py ! px \<longleftrightarrow>
         img_data img ! ((py * img_width img + px) * 4) < 240 \<or>
         img_data img ! ((py * img_width img + px) * 4 + 1) < 240 \<or>
         img_data img ! ((py * img_width img + px) * 4 + 2) < 240)) \<and>
   (img_width img' = img_width img \<and> img_height img' = img_height img \<and>
    length (img_data img') = length (img_data img) \<and>
    (\<forall>i<length (img_data img). i mod 4 \<noteq> 3 \<longrightarrow> img_data img' ! i = img_data img ! i) \<longrightarrow>
      binaryMatrix (load_image img' d) = binaryMatrix (load_image img d))"
proof (intro conjI impI)
  assume a: "length (img_data img) = 4 * img_width img * img_height img \<and>
    px < img_width img \<and> py < img_height img"
  then have "py * img_width img + px < img_width img * img_height img"
    by (intro cell_index) simp_all
  with a have "(py * img_width img + px) * 4 + 2 < length (img_data img)" by simp
  then have "isForeground (img_data img) ((py * img_width img + px) * 4) \<longleftrightarrow>
         img_data img ! ((py * img_width img + px) * 4) < 240 \<or>
         img_data img ! ((py * img_width img + px) * 4 + 1) < 240 \<or>
         img_data img ! ((py * img_width img + px) * 4 + 2) < 240"
    by (simp add: isForeground_def below240_def)
  with a show "binaryMatrix (load_image img d) ! py ! px \<longleftrightarrow>
         img_data img ! ((py * img_width img + px) * 4) < 240 \<or>
         img_data img ! ((py * img_width img + px) * 4 + 1) < 240 \<or>
         img_data img ! ((py * img_width img + px) * 4 + 2) < 240"
    by (simp add: load_image_fields)
next
  assume a: "img_width img' = img_width img \<and> img_height img' = img_height img \<and>
    length (img_data img') = length (img_data img) \<and>
    (\<forall>i<length (img_data img). i mod 4 \<noteq> 3 \<longrightarrow> img_data img' ! i = img_data img ! i)"
  have b: "below240 (img_data img') i = below240 (img_data img) i" if "i mod 4 \<noteq> 3" for i
    using a that by (auto simp: below240_def)
  have fg: "isForeground (img_data img') (k * 4) = isForeground (img_data img) (k * 4)" for k
  proof -
    have "below240 (img_data img') (k * 4) = below240 (img_data img) (k * 4)"
      by (rule b) presburger
    moreover have "below240 (img_data img') (k * 4 + 1) = below240 (img_data img) (k * 4 + 1)"
      by (rule b) presburger
    moreover have "below240 (img_data img') (k * 4 + 2) = below240 (img_data img) (k * 4 + 2)"
      by (rule b) presburger
    ultimately show ?thesis by (simp only: isForeground_def)
  qed
  from a have wh: "img_width img' = img_width img" "img_height img' = img_height img"
    by simp_all
  show "binaryMatrix (load_image img' d) = binaryMatrix (load_image img d)"
    by (simp only: load_image_fields wh fg)
qed

text \<open>A single pixel with a dark blue channel, with alpha 0 and alpha 255.\<close>

theorem binarizer_threshold_witness:
  "binaryMatrix (load_image pixel_a fresh_detector) ! 0 ! 0 \<and>
   binaryMatrix (load_image pixel_b fresh_detector) = binaryMatrix (load_image pixel_a fresh_detector)"
proof -
  have h: "\<forall>i<length (img_data pixel_a). i mod 4 \<noteq> 3 \<longrightarrow> img_data pixel_b ! i = img_data pixel_a ! i"
  proof (intro allI impI)
    fix i assume "i < length (img_data pixel_a)" "i mod 4 \<noteq> 3"
    then have "i = 0 \<or> i = 1 \<or> i = 2" by (auto simp: pixel_a_def)
    then show "img_data pixel_b ! i = img_data pixel_a ! i"
      by (auto simp: pixel_a_def pixel_b_def)
  qed
  show ?thesis
    using binarizer_threshold[of pixel_a 0 0 fresh_detector pixel_b] h
    by (simp add: pixel_a_def pixel_b_def)
qed

text \<open>
  Claim C6. Every run ends, and the lists returned by \<open>floodFill\<close> during the run (kept or
  discarded) partition the foreground: no pixel occurs twice in them, together they are
  exactly the foreground pixels, each foreground pixel lies in exactly one of them, their
  lengths add up to the number of foreground pixels, and at the end exactly the foreground
  pixels are marked visited. A cell of \<open>visited\<close> that is true stays true through every
  iteration of the fill loop and every step of the raster scan.
\<close>

theorem extraction_partitions_foreground:
  "\<exists>s. detect_run lg img d = Some s \<and>
       distinct (concat (regions s)) \<and>
       set (concat (regions s)) = foreground (load_image img d) \<and>
       (\<forall>p\<in>foreground (load_image img d). \<exists>!i. i < length (regions s) \<and> p \<in> set (regions s ! i)) \<and>
       sum_list (map length (regions s)) = card (foreground (load_image img d)) \<and>
       seen (sdet s) = foreground (load_image img d) \<and>
       (\<forall>t a b. cell (visited (det t)) a b \<longrightarrow> cell (visited (det (flood_step t))) a b) \<and>
       (\<forall>t t' py px a b. scan_pixel lg py px t = Some t' \<and> cell (visited (sdet t)) a b \<longrightarrow>
           cell (visited (sdet t')) a b)"
proof -
  let ?fg = "foreground (load_image img d)"
  from detect_run_main[of lg img d] obtain s where run: "detect_run lg img d = Some s"
    and inv: "scan_inv lg (load_image img d) s" and cov: "seen (sdet s) = ?fg" by blast
  from inv have dc: "distinct (concat (regions s))"
    and eq: "set (concat (regions s)) = seen (sdet s)" by (simp_all add: scan_inv_def)
  have one: "\<forall>p\<in>?fg. \<exists>!i. i < length (regions s) \<and> p \<in> set (regions s ! i)"
  proof
    fix p assume "p \<in> ?fg"
    then have "p \<in> set (concat (regions s))" by (simp only: eq cov)
    then show "\<exists>!i. i < length (regions s) \<and> p \<in> set (regions s ! i)"
      by (rule in_exactly_one[OF dc])
  qed
  have "sum_list (map length (regions s)) = length (concat (regions s))"
    by (simp add: length_concat)
  also have "\<dots> = card (set (concat (regions s)))" by (rule distinct_card[OF dc, symmetric])
  finally have cnt: "sum_list (map length (regions s)) = card ?fg" by (simp only: eq cov)
  have m1: "\<forall>t a b. cell (visited (det t)) a b \<longrightarrow> cell (visited (det (flood_step t))) a b"
    by (simp add: flood_step_cell_mono)
  have m2: "\<forall>t t' py px a b. scan_pixel lg py px t = Some t' \<and> cell (visited (sdet t)) a b \<longrightarrow>
           cell (visited (sdet t')) a b"
    using scan_pixel_cell_mono by blast
  from run dc eq cov one cnt m1 m2 show ?thesis by auto
qed

text \<open>The run on the 10 by 10 black square: one region, which is the whole foreground.\<close>

theorem extraction_partitions_foreground_witness:
  "distinct (concat [square_region]) \<and>
   set (concat [square_region]) = foreground (load_image square_image fresh_detector) \<and>
   (3, 4) \<in> foreground (load_image square_image fresh_detector) \<and>
   (\<exists>!i. i < length [square_region] \<and> (3, 4) \<in> set ([square_region] ! i)) \<and>
   sum_list (map length [square_region]) = card (foreground (load_image square_image fresh_detector)) \<and>
   cell (visited square_done) 0 0 \<and>
   cell (visited (det (flood_step \<lparr>queue = [(0, 0)], pixels = [], det = square_done\<rparr>))) 0 0"
proof -
  let ?fg = "foreground (load_image square_image fresh_detector)"
  let ?t = "\<lparr>queue = [(0, 0)], pixels = [], det = square_done\<rparr>"
  from extraction_partitions_foreground[of clog10 square_image fresh_detector]
  have a: "distinct (concat [square_region])"
    "set (concat [square_region]) = ?fg"
    "\<forall>p\<in>?fg. \<exists>!i. i < length [square_region] \<and> p \<in> set ([square_region] ! i)"
    "sum_list (map length [square_region]) = card ?fg"
    and m: "cell (visited (det ?t)) 0 0 \<longrightarrow> cell (visited (det (flood_step ?t))) 0 0"
    by (auto simp: detect_square)
  have v: "cell (visited square_done) 0 0"
    by (simp add: square_done_def cell_def)
  have "(3, 4) \<in> set square_region" by code_simp
  then have p: "(3, 4) \<in> ?fg" using a(2) by simp
  with a(3) have "\<exists>!i. i < length [square_region] \<and> (3, 4) \<in> set ([square_region] ! i)"
    by blast
  with a p v m show ?thesis by simp
qed

text \<open>
  Claim C7. The perimeter computed by \<open>analyzeShape\<close> is the sum, accumulated from 0 in list
  order, of the Euclidean distances between consecutive pixels of the list, the last
  distance being the one from the last pixel back to the first; the circularity is
  \<open>4\<pi>\<cdot>area / perimeter\<^sup>2\<close> when the perimeter is positive and 0 otherwise; and the type
  and the confidence that \<open>analyzeShape\<close> returns are those the classifier gives for this
  circularity. Every operation is the double-precision one.
\<close>

theorem perimeter_is_path_sum:
  "perimeterLoop ps = spec_perimeter ps \<and>
   circularityOf (length ps) (perimeterLoop ps) = spec_circularity ps \<and>
   map_option (\<lambda>sh. (shape_type sh, confidence sh)) (analyzeShape lg d ps) =
     (let tc = classify (spec_circularity ps) (aspectRatioOf d ps) (extentOf d ps);
          conf = max (lit 0.1) (min (lit 0.99) (fmul (snd tc) (sizePenalty lg (length ps))))
      in if length ps < 10 \<or> conf < lit 0.6 then None else Some (fst tc, conf))"
proof -
  have c: "circularityOf (length ps) (perimeterLoop ps) = spec_circularity ps"
    by (simp add: circularityOf_def spec_circularity_def perimeterLoop_spec)
  have "map_option (\<lambda>sh. (shape_type sh, confidence sh)) (analyzeShape lg d ps) =
     (let tc = classify (circularityOf (length ps) (perimeterLoop ps))
                 (aspectRatioOf d ps) (extentOf d ps);
          conf = max (lit 0.1) (min (lit 0.99) (fmul (snd tc) (sizePenalty lg (length ps))))
      in if length ps < 10 \<or> conf < lit 0.6 then None else Some (fst tc, conf))"
    unfolding Let_def analyzeShape_alt finalConfidence_def classOf_def by auto
  with c show ?thesis by (simp only: perimeterLoop_spec simp_thms)
qed

text \<open>
  On the region of the 10 by 10 black square: the circularity of the path sum is at most
  13/16, the chain answers square for it, and this is the type \<open>analyzeShape\<close> returns.
\<close>

theorem perimeter_is_path_sum_witness:
  "perimeterLoop square_region = spec_perimeter square_region \<and>
   spec_circularity square_region \<le> 13 / 16 \<and>
   fst (classify (spec_circularity square_region) (aspectRatioOf square_done square_region)
          (extentOf square_done square_region)) = Square \<and>
   map_option (\<lambda>sh. (shape_type sh, confidence sh))
     (analyzeShape clog10 square_done square_region) = Some (Square, fmul (lit 0.85) (lit 0.8))"
proof -
  note t = perimeter_is_path_sum[of square_region clog10 square_done]
  note t1 = t[THEN conjunct1] and t2 = t[THEN conjunct2, THEN conjunct1]
    and t3 = t[THEN conjunct2, THEN conjunct2]
  have "circularityOf (length square_region) (perimeterLoop square_region) \<le> 13 / 16"
    by (rule circularity_bound[OF square_region_facts(2)]) (simp_all add: square_region_facts)
  then have c: "spec_circularity square_region \<le> 13 / 16" by (simp only: t2)
  have a: "map_option (\<lambda>sh. (shape_type sh, confidence sh))
     (analyzeShape clog10 square_done square_region) = Some (Square, fmul (lit 0.85) (lit 0.8))"
    by (simp add: analyze_square square_shape_def)
  from t3 have "fst (classify (spec_circularity square_region)
          (aspectRatioOf square_done square_region) (extentOf square_done square_region)) = Square"
    unfolding a by (simp add: Let_def split: if_splits)
  with t1 c a show ?thesis by simp
qed

text \<open>
  Claim C8. For every region handed to \<open>analyzeShape\<close> in a run, the bounding box is the
  minimum and maximum of the x and of the y coordinates of its pixels, with
  width \<open>maxX - minX + 1\<close> and height \<open>maxY - minY + 1\<close>, the centre is the arithmetic mean
  of the pixel coordinates (the exact coordinate sum, divided once in doubles by the pixel
  count), and a shape returned for the region carries exactly these.
\<close>

theorem centroid_and_box:
  assumes "detect_run lg img d = Some s" and "r \<in> set (analysed s)"
  shows "boxOf (sdet s) r =
           \<lparr>box_x = Min (fst ` set r), box_y = Min (snd ` set r),
            box_width = Max (fst ` set r) - Min (fst ` set r) + 1,
            box_height = Max (snd ` set r) - Min (snd ` set r) + 1\<rparr> \<and>
         centerOf (sdet s) r =
           (fdiv (real_of_int (sum_list (map fst r))) (real (length r)),
            fdiv (real_of_int (sum_list (map snd r))) (real (length r))) \<and>
         (\<forall>sh. analyzeShape lg (sdet s) r = Some sh \<longrightarrow>
            boundingBox sh = boxOf (sdet s) r \<and> center sh = centerOf (sdet s) r \<and>
            area sh = length r)"
proof -
  let ?d0 = "load_image img d"
  have inv: "scan_inv lg ?d0 s" using assms(1) by (rule run_props)
  from analysed_props[OF inv assms(2)] have big: "minShapeSize < length r"
    and sub: "set r \<subseteq> foreground ?d0" by simp_all
  from big have ne: "r \<noteq> []" by auto
  from sub foreground_in_box[of ?d0]
  have "set r \<subseteq> {0..<int (width ?d0)} \<times> {0..<int (height ?d0)}" by blast
  from boundsLoop_in_range[OF ne this]
  have b: "boxOf ?d0 r =
           \<lparr>box_x = Min (fst ` set r), box_y = Min (snd ` set r),
            box_width = Max (fst ` set r) - Min (fst ` set r) + 1,
            box_height = Max (snd ` set r) - Min (snd ` set r) + 1\<rparr>"
    and c: "centerOf ?d0 r =
           (fdiv (real_of_int (sum_list (map fst r))) (real (length r)),
            fdiv (real_of_int (sum_list (map snd r))) (real (length r)))"
    by (simp_all add: boxOf_def centerOf_def)
  have "\<forall>sh. analyzeShape lg (sdet s) r = Some sh \<longrightarrow>
            boundingBox sh = boxOf (sdet s) r \<and> center sh = centerOf (sdet s) r \<and>
            area sh = length r"
    by (auto simp: analyzeShape_alt split: if_splits)
  with b c show ?thesis by (simp add: run_features[OF assms(1)])
qed

text \<open>The 10 by 10 square: box (0, 0, 10, 10) and centre (4.5, 4.5).\<close>

theorem centroid_and_box_witness:
  "detect_run clog10 square_image fresh_detector =
     Some \<lparr>sdet = square_done, acc_shapes = [square_shape],
           regions = [square_region], analysed = [square_region]\<rparr> \<and>
   analyzeShape clog10 square_done square_region = Some square_shape \<and>
   boundingBox square_shape =
     \<lparr>box_x = Min (fst ` set square_region), box_y = Min (snd ` set square_region),
      box_width = Max (fst ` set square_region) - Min (fst ` set square_region) + 1,
      box_height = Max (snd ` set square_region) - Min (snd ` set square_region) + 1\<rparr> \<and>
   center square_shape =
     (fdiv (real_of_int (sum_list (map fst square_region))) (real (length square_region)),
      fdiv (real_of_int (sum_list (map snd square_region))) (real (length square_region))) \<and>
   area square_shape = length square_region"
  using centroid_and_box[OF detect_square, of square_region]
  by (simp add: detect_square analyze_square)

text \<open>
  Claim C9. The shapes returned by \<open>detectShapes\<close> depend on the image only (the engine's
  \<open>Math.log10\<close> being the same function in every run): the fields the
  detector object keeps from an earlier run (\<open>width\<close>, \<open>height\<close>, \<open>data\<close>, \<open>binaryMatrix\<close>,
  \<open>visited\<close>) are all overwritten before they are read, so any two detector states give the
  same result, and a second run on the same image, started in the state the first run
  left, returns the same result and leaves the same state.
\<close>

theorem detect_is_deterministic:
  "map_option fst (detectShapes lg img d) = map_option fst (detectShapes lg img d') \<and>
   (\<exists>res d1. detectShapes lg img d = Some (res, d1) \<and> detectShapes lg img d1 = Some (res, d1))"
proof -
  have eq: "detectShapes lg img a = detectShapes lg img b" for a b
    by (simp add: detectShapes_def detect_run_def load_image_indep[of img a b])
  from detect_run_main[of lg img d] obtain s where "detect_run lg img d = Some s" by blast
  then obtain res where r: "detectShapes lg img d = Some (res, sdet s)"
    by (simp add: detectShapes_def)
  with eq[of "sdet s" d] have "detectShapes lg img (sdet s) = Some (res, sdet s)" by simp
  with r eq[of d d'] show ?thesis by auto
qed

text \<open>
  Claim C10. In a run, every list passed to \<open>analyzeShape\<close> has more than 20 pixels, so the
  test \<open>pixels.length < 10\<close> at its head is false there. Besides, for such a list
  \<open>analyzeShape\<close> returns nothing exactly when the clamped confidence, computed in doubles,
  is below the double 0.6.
\<close>

theorem small_region_branch_unreachable:
  assumes "detect_run lg img d = Some s" and "r \<in> set (analysed s)"
  shows "20 < length r \<and> \<not> length r < 10 \<and>
         (analyzeShape lg (sdet s) r = None \<longleftrightarrow> finalConfidence lg (sdet s) r < lit 0.6)"
proof -
  have "scan_inv lg (load_image img d) s" using assms(1) by (rule run_props)
  from analysed_props(1)[OF this assms(2)] have "20 < length r"
    by (simp add: minShapeSize_def)
  then show ?thesis by (simp add: analyzeShape_alt)
qed

text \<open>The 100-pixel region of the square is analysed and its shape is returned.\<close>

theorem small_region_branch_unreachable_witness:
  "detect_run clog10 square_image fresh_detector =
     Some \<lparr>sdet = square_done, acc_shapes = [square_shape],
           regions = [square_region], analysed = [square_region]\<rparr> \<and>
   20 < length square_region \<and> \<not> length square_region < 10 \<and>
   analyzeShape clog10 square_done square_region \<noteq> None \<and>
   \<not> finalConfidence clog10 square_done square_region < lit 0.6"
  using small_region_branch_unreachable[OF detect_square, of square_region]
  by (simp add: detect_square analyze_square)

end
